theory Spec2Isabelle
  imports Main
begin

section \<open>Data model (types.ts)\<close>

datatype RoomState = WAITING | RUNNING | ENDED

text \<open>A client identifier is a JavaScript string; a station id and every time value is a
  JavaScript number that only ever holds an integer here (milliseconds or seconds).\<close>

type_synonym clientId = string

record StationSlot =
  slot_id :: int
  ownerClientId :: "clientId option"
  ready :: bool
  connected :: bool

text \<open>The optional boolean fields \<open>warned30\<close>, \<open>warned60\<close> and \<open>pendingCompaction\<close> are only
  ever read through \<open>!field\<close> and only ever assigned booleans, so \<open>undefined\<close> and \<open>false\<close>
  are one value. The timer handle \<open>interval\<close> is opaque: only its presence is kept.\<close>

record Room =
  code :: string
  centralClientId :: clientId
  state :: RoomState
  stationsCount :: int
  roundDurationSec :: int
  stations :: "int \<rightharpoonup> StationSlot"
  bindings :: "clientId \<rightharpoonup> int"
  interval :: bool
  timeLeft :: "int option"
  startedAt :: "int option"
  warned30 :: bool
  warned60 :: bool
  pendingCompaction :: bool

datatype error =
    E_BAD_STATE | E_STATIONS_IN_USE | E_STATION_TAKEN | E_INVALID_PAYLOAD
  | E_INVALID_STATION | E_ROOM_NOT_FOUND | E_NOT_CENTRAL | TypeError | ZodError

text \<open>An operation that may throw returns the error thrown, if any, together with the room
  object as the call leaves it.\<close>

type_synonym outcome = "error option \<times> Room"

text \<open>JavaScript truthiness of an optional string (\<open>undefined\<close> and \<open>""\<close> are falsy) and of an
  optional number (\<open>undefined\<close> and \<open>0\<close> are falsy).\<close>

definition truthy_str :: "string option \<Rightarrow> bool" where
  "truthy_str x = (case x of None \<Rightarrow> False | Some s \<Rightarrow> s \<noteq> [])"

definition truthy_num :: "int option \<Rightarrow> bool" where
  "truthy_num x = (case x of None \<Rightarrow> False | Some n \<Rightarrow> n \<noteq> 0)"

section \<open>roomStore.ts\<close>

text \<open>The file holds the store twice. \<open>claimStation\<close> exists in the first copy only and is
  taken from there; every other function is taken from the second copy, the one with the
  60-second warning and the compaction helpers that socket.ts imports.\<close>

subsection \<open>allClaimedAndReady, startRound\<close>

text \<open>The loop \<open>for (let i = 1; i <= room.stationsCount; i++)\<close>, entered at \<open>i\<close>.\<close>

function allClaimedAndReady_loop :: "Room \<Rightarrow> int \<Rightarrow> bool" where
  "allClaimedAndReady_loop room i =
     (if i \<le> stationsCount room then
        (case stations room i of
           None \<Rightarrow> False
         | Some s \<Rightarrow>
             if \<not> truthy_str (ownerClientId s) then False
             else if \<not> ready s then False
             else allClaimedAndReady_loop room (i + 1))
      else True)"
  by pat_completeness auto
termination
  by (relation "measure (\<lambda>(room, i). nat (stationsCount room + 1 - i))") auto

declare allClaimedAndReady_loop.simps [simp del]

definition allClaimedAndReady :: "Room \<Rightarrow> bool" where
  "allClaimedAndReady room = allClaimedAndReady_loop room 1"

text \<open>\<open>now\<close> is the value of \<open>Date.now()\<close> at the call.\<close>

definition startRound :: "int \<Rightarrow> Room \<Rightarrow> outcome" where
  "startRound now room =
     (if state room \<noteq> WAITING then (Some E_BAD_STATE, room)
      else if \<not> allClaimedAndReady room then (Some E_BAD_STATE, room)
      else (None, room\<lparr>state := RUNNING, startedAt := Some now,
                        timeLeft := Some (roundDurationSec room),
                        warned30 := False, warned60 := False\<rparr>))"

subsection \<open>stopRound, resumeRound, tick\<close>

definition stopRound :: "int \<Rightarrow> Room \<Rightarrow> outcome" where
  "stopRound now room =
     (if state room \<noteq> RUNNING then (Some E_BAD_STATE, room)
      else (None, room\<lparr>state := ENDED, interval := False,
              timeLeft := Some (max 0 (roundDurationSec room -
                 (now - (case startedAt room of None \<Rightarrow> now | Some sa \<Rightarrow> sa)) div 1000))\<rparr>))"

definition resumeRound :: "int \<Rightarrow> Room \<Rightarrow> outcome" where
  "resumeRound now room =
     (if state room \<noteq> ENDED then (Some E_BAD_STATE, room)
      else
        let tl = (case timeLeft room of None \<Rightarrow> 0 | Some t \<Rightarrow> t) in
        if tl \<le> 0 then (Some E_BAD_STATE, room)
        else (None, room\<lparr>state := RUNNING,
                startedAt := Some (now - (roundDurationSec room - tl) * 1000),
                warned30 := (tl \<le> 30), warned60 := (tl \<le> 60)\<rparr>))"

text \<open>The three callbacks of \<open>tick\<close> are recorded as events, in the order they are called.\<close>

datatype event = Warn30 | Warn60 | TimeUp

definition tick :: "int \<Rightarrow> Room \<Rightarrow> Room \<times> event list" where
  "tick now room =
     (if state room \<noteq> RUNNING then (room, [])
      else case startedAt room of
        None \<Rightarrow> (room, [])
      | Some sa \<Rightarrow>
          let elapsed = (now - sa) div 1000;
              tl = max 0 (roundDurationSec room - elapsed);
              r1 = room\<lparr>timeLeft := Some tl\<rparr>;
              (r2, e2) = (if \<not> warned60 r1 \<and> roundDurationSec r1 \<ge> 60 \<and> tl = 60
                          then (r1\<lparr>warned60 := True\<rparr>, [Warn60]) else (r1, []));
              (r3, e3) = (if \<not> warned30 r2 \<and> tl = 30 \<and> roundDurationSec r2 > 30
                          then (r2\<lparr>warned30 := True\<rparr>, [Warn30]) else (r2, []));
              (r4, e4) = (if tl = 0
                          then (r3\<lparr>state := ENDED, interval := False\<rparr>, [TimeUp])
                          else (r3, []))
          in (r4, e2 @ e3 @ e4))"

text \<open>A sequence of ticks at the given clock readings: for each tick, the room before it, the
  clock reading, and the callbacks it called.\<close>

fun tick_trace :: "Room \<Rightarrow> int list \<Rightarrow> (Room \<times> int \<times> event list) list" where
  "tick_trace room [] = []"
| "tick_trace room (t # ts) = (room, t, snd (tick t room)) # tick_trace (fst (tick t room)) ts"

text \<open>The remaining time a tick at clock reading \<open>t\<close> computes for the room, when it runs at all.\<close>

definition tick_timeLeft :: "Room \<Rightarrow> int \<Rightarrow> int option" where
  "tick_timeLeft room t =
     (if state room \<noteq> RUNNING then None
      else case startedAt room of
        None \<Rightarrow> None
      | Some sa \<Rightarrow> Some (max 0 (roundDurationSec room - (t - sa) div 1000)))"

text \<open>Every callback called along a sequence of ticks, in order.\<close>

definition fired :: "(Room \<times> 'a \<times> event list) list \<Rightarrow> event list" where
  "fired tr = concat (map (\<lambda>(r, t, ev). ev) tr)"

text \<open>A tick of the room at clock reading \<open>t\<close> sees the 60-second (30-second) mark: the room
  is RUNNING and the remaining time it computes is exactly 60 with a round of at least 60
  seconds (exactly 30 with a round of more than 30).\<close>

definition warn60_due :: "Room \<Rightarrow> int \<Rightarrow> bool" where
  "warn60_due r t \<longleftrightarrow> tick_timeLeft r t = Some 60 \<and> roundDurationSec r \<ge> 60"

definition warn30_due :: "Room \<Rightarrow> int \<Rightarrow> bool" where
  "warn30_due r t \<longleftrightarrow> tick_timeLeft r t = Some 30 \<and> roundDurationSec r > 30"

text \<open>A latch \<open>w\<close> stays set from clock reading \<open>now\<close> on: it is set, a RUNNING room has
  already reached the mark \<open>m\<close> at \<open>now\<close>, and an ENDED room retains at most \<open>m\<close>.\<close>

definition latched :: "int \<Rightarrow> bool \<Rightarrow> Room \<Rightarrow> int \<Rightarrow> bool" where
  "latched m w r now \<longleftrightarrow>
     w \<and>
     (state r = RUNNING \<longrightarrow>
        (\<exists>sa. startedAt r = Some sa \<and> roundDurationSec r - (now - sa) div 1000 \<le> m)) \<and>
     (state r = ENDED \<longrightarrow> (case timeLeft r of None \<Rightarrow> 0 | Some x \<Rightarrow> x) \<le> m)"

text \<open>What happens to a room in the course of a round, each at a clock reading: the timer
  ticks, the controller pauses (\<open>stopRound\<close>), the controller resumes (\<open>resumeRound\<close>). A
  call that throws leaves the room as it is.\<close>

datatype round_op = Tick int | Pause int | Resume int

fun op_time :: "round_op \<Rightarrow> int" where
  "op_time (Tick t) = t"
| "op_time (Pause t) = t"
| "op_time (Resume t) = t"

fun round_step :: "round_op \<Rightarrow> Room \<Rightarrow> Room \<times> event list" where
  "round_step (Tick t) room = tick t room"
| "round_step (Pause t) room = (snd (stopRound t room), [])"
| "round_step (Resume t) room = (snd (resumeRound t room), [])"

text \<open>A round as a sequence of such steps: for each step, the room before it, the step, and
  the callbacks it called.\<close>

fun round_trace :: "Room \<Rightarrow> round_op list \<Rightarrow> (Room \<times> round_op \<times> event list) list" where
  "round_trace room [] = []"
| "round_trace room (x # xs) =
     (room, x, snd (round_step x room)) # round_trace (fst (round_step x room)) xs"

subsection \<open>makeStations, createRoom\<close>

definition fresh_slot :: "int \<Rightarrow> StationSlot" where
  "fresh_slot i = \<lparr>slot_id = i, ownerClientId = None, ready = False, connected = False\<rparr>"

function makeStations_loop :: "(int \<rightharpoonup> StationSlot) \<Rightarrow> int \<Rightarrow> int \<Rightarrow> (int \<rightharpoonup> StationSlot)" where
  "makeStations_loop m i n =
     (if i \<le> n then makeStations_loop (m(i \<mapsto> fresh_slot i)) (i + 1) n else m)"
  by pat_completeness auto
termination
  by (relation "measure (\<lambda>(m, i, n). nat (n + 1 - i))") auto

declare makeStations_loop.simps [simp del]

definition makeStations :: "int \<Rightarrow> (int \<rightharpoonup> StationSlot)" where
  "makeStations n = makeStations_loop Map.empty 1 n"

text \<open>The room code comes from \<open>genCode()\<close>, which is not part of the store: it is a parameter.\<close>

definition createRoom :: "string \<Rightarrow> clientId \<Rightarrow> int \<Rightarrow> int \<Rightarrow> Room" where
  "createRoom c central n dur =
     \<lparr>code = c, centralClientId = central, state = WAITING, stationsCount = n,
      roundDurationSec = dur, stations = makeStations n, bindings = Map.empty,
      interval = False, timeLeft = None, startedAt = None,
      warned30 = False, warned60 = False, pendingCompaction = False\<rparr>"

subsection \<open>claimStation, setReady\<close>

text \<open>\<open>room.stations.get(stationId)!\<close> asserts the slot exists; reading a field of
  \<open>undefined\<close> throws a \<open>TypeError\<close>.\<close>

definition release :: "StationSlot \<Rightarrow> StationSlot" where
  "release p = p\<lparr>ownerClientId := None, ready := False, connected := False\<rparr>"

definition claimStation :: "Room \<Rightarrow> clientId \<Rightarrow> int \<Rightarrow> outcome" where
  "claimStation room cid stationId =
     (if stationId < 1 \<or> stationId > stationsCount room then (Some E_INVALID_PAYLOAD, room)
      else case stations room stationId of
        None \<Rightarrow> (Some TypeError, room)
      | Some slot \<Rightarrow>
          if truthy_str (ownerClientId slot) \<and> ownerClientId slot \<noteq> Some cid
          then (Some E_STATION_TAKEN, room)
          else
            let prev = bindings room cid;
                st1 = (if truthy_num prev \<and> prev \<noteq> Some stationId
                       then (case stations room (the prev) of
                               None \<Rightarrow> stations room
                             | Some p \<Rightarrow> (stations room)(the prev \<mapsto> release p))
                       else stations room)
            in (None, room\<lparr>stations := st1(stationId \<mapsto> slot\<lparr>ownerClientId := Some cid,
                                                                connected := True\<rparr>),
                            bindings := (bindings room)(cid \<mapsto> stationId)\<rparr>))"

definition setReady :: "Room \<Rightarrow> clientId \<Rightarrow> bool \<Rightarrow> outcome" where
  "setReady room cid rdy =
     (let sid = bindings room cid in
      if \<not> truthy_num sid then (None, room)
      else case stations room (the sid) of
        None \<Rightarrow> (Some TypeError, room)
      | Some slot \<Rightarrow> (None, room\<lparr>stations := (stations room)(the sid \<mapsto> slot\<lparr>ready := rdy\<rparr>)\<rparr>))"

subsection \<open>updateConfig\<close>

text \<open>The guard loop \<open>for (let i = stationsCount + 1; i <= room.stationsCount; i++)\<close>, entered
  at \<open>i\<close>: \<open>True\<close> when it throws.\<close>

function inUse_loop :: "Room \<Rightarrow> int \<Rightarrow> bool" where
  "inUse_loop room i =
     (if i \<le> stationsCount room then
        (case stations room i of
           None \<Rightarrow> inUse_loop room (i + 1)
         | Some s \<Rightarrow> if truthy_str (ownerClientId s) then True else inUse_loop room (i + 1))
      else False)"
  by pat_completeness auto
termination
  by (relation "measure (\<lambda>(room, i). nat (stationsCount room + 1 - i))") auto

declare inUse_loop.simps [simp del]

text \<open>\<open>for (let i = lo; i <= hi; i++) stations.delete(i)\<close>.\<close>

function delete_loop :: "(int \<rightharpoonup> StationSlot) \<Rightarrow> int \<Rightarrow> int \<Rightarrow> (int \<rightharpoonup> StationSlot)" where
  "delete_loop m i hi = (if i \<le> hi then delete_loop (m(i := None)) (i + 1) hi else m)"
  by pat_completeness auto
termination
  by (relation "measure (\<lambda>(m, i, hi). nat (hi + 1 - i))") auto

declare delete_loop.simps [simp del]

text \<open>\<open>for (let i = 1; i <= stationsCount; i++) if (!stations.get(i)) stations.set(i, ...)\<close>.\<close>

function fill_loop :: "(int \<rightharpoonup> StationSlot) \<Rightarrow> int \<Rightarrow> int \<Rightarrow> (int \<rightharpoonup> StationSlot)" where
  "fill_loop m i hi =
     (if i \<le> hi then
        fill_loop (case m i of None \<Rightarrow> m(i \<mapsto> fresh_slot i) | Some s \<Rightarrow> m) (i + 1) hi
      else m)"
  by pat_completeness auto
termination
  by (relation "measure (\<lambda>(m, i, hi). nat (hi + 1 - i))") auto

declare fill_loop.simps [simp del]

definition updateConfig :: "Room \<Rightarrow> int \<Rightarrow> int \<Rightarrow> outcome" where
  "updateConfig room newCount dur =
     (if state room \<noteq> WAITING then (Some E_BAD_STATE, room)
      else if inUse_loop room (newCount + 1) then (Some E_STATIONS_IN_USE, room)
      else (None, room\<lparr>stationsCount := newCount,
                       stations := fill_loop (delete_loop (stations room) (newCount + 1) 200)
                                             1 newCount,
                       roundDurationSec := dur\<rparr>))"

subsection \<open>Compaction\<close>

text \<open>The scan \<open>while (newCount > 0) { ... newCount--; }\<close> of \<open>tailCompactIfWaiting\<close>, entered
  with \<open>newCount = n\<close>: the value of \<open>newCount\<close> when it stops.\<close>

function tail_scan :: "Room \<Rightarrow> int \<Rightarrow> int" where
  "tail_scan room n =
     (if n > 0 then
        (case stations room n of
           None \<Rightarrow> tail_scan room (n - 1)
         | Some s \<Rightarrow>
             if truthy_str (ownerClientId s) \<or> ready s \<or> connected s then n
             else tail_scan room (n - 1))
      else n)"
  by pat_completeness auto
termination
  by (relation "measure (\<lambda>(room, n). nat n)") auto

declare tail_scan.simps [simp del]

definition tailCompactIfWaiting :: "Room \<Rightarrow> Room" where
  "tailCompactIfWaiting room =
     (if state room \<noteq> WAITING then room
      else
        let newCount = tail_scan room (stationsCount room) in
        if newCount < stationsCount room
        then room\<lparr>stations := delete_loop (stations room) (newCount + 1) (stationsCount room),
                  stationsCount := newCount\<rparr>
        else room)"

definition maybeApplyPendingCompaction :: "Room \<Rightarrow> Room" where
  "maybeApplyPendingCompaction room =
     (if state room \<noteq> WAITING then room
      else if \<not> pendingCompaction room then room
      else (tailCompactIfWaiting room)\<lparr>pendingCompaction := False\<rparr>)"

type_synonym remap = "clientId \<times> int \<times> int"

text \<open>The shifting loop \<open>for (let i = removedId; i < room.stationsCount; i++)\<close> of
  \<open>renumberCompactIfWaiting\<close>, entered at \<open>i\<close> with \<open>n = room.stationsCount\<close>; a remap is
  \<open>(clientId, oldId, newId)\<close>.\<close>

function renumber_loop ::
  "int \<Rightarrow> int \<Rightarrow> (int \<rightharpoonup> StationSlot) \<Rightarrow> (clientId \<rightharpoonup> int) \<Rightarrow> remap list
     \<Rightarrow> (int \<rightharpoonup> StationSlot) \<times> (clientId \<rightharpoonup> int) \<times> remap list" where
  "renumber_loop i n st b renumbered =
     (if i < n then
        let src = (case st (i + 1) of None \<Rightarrow> fresh_slot (i + 1) | Some s \<Rightarrow> s);
            dst = (case st i of None \<Rightarrow> fresh_slot i | Some d \<Rightarrow> d);
            st' = st(i \<mapsto> dst\<lparr>slot_id := i, ownerClientId := ownerClientId src,
                               connected := connected src, ready := ready src\<rparr>)
        in if truthy_str (ownerClientId src) then
             let cid = the (ownerClientId src);
                 b' = (if b cid = Some (i + 1) then b(cid \<mapsto> i) else b)
             in renumber_loop (i + 1) n st' b' (renumbered @ [(cid, i + 1, i)])
           else renumber_loop (i + 1) n st' b renumbered
      else (st, b, renumbered))"
  by pat_completeness auto
termination
  by (relation "measure (\<lambda>(i, n, st, b, renumbered). nat (n - i))") auto

declare renumber_loop.simps [simp del]

definition renumberCompactIfWaiting :: "Room \<Rightarrow> int \<Rightarrow> Room \<times> remap list" where
  "renumberCompactIfWaiting room removedId =
     (if state room \<noteq> WAITING then (room, [])
      else if removedId < 1 \<or> removedId > stationsCount room then (room, [])
      else
        let st0 = (case stations room removedId of
                     None \<Rightarrow> stations room
                   | Some removed \<Rightarrow> (stations room)(removedId \<mapsto> release removed));
            (st1, b1, renumbered) =
               renumber_loop removedId (stationsCount room) st0 (bindings room) []
        in (room\<lparr>stations := st1(stationsCount room := None), bindings := b1,
                  stationsCount := max 0 (stationsCount room - 1)\<rparr>, renumbered))"

text \<open>The slot the shifting loop reads as \<open>src\<close> at step \<open>i\<close>:
  \<open>room.stations.get(i + 1) ?? { id: i + 1, ready: false, connected: false }\<close>.\<close>

definition src_at :: "(int \<rightharpoonup> StationSlot) \<Rightarrow> int \<Rightarrow> StationSlot" where
  "src_at st i = (case st (i + 1) of None \<Rightarrow> fresh_slot (i + 1) | Some s \<Rightarrow> s)"

subsection \<open>resetToWaiting, immediateEnd\<close>

definition resetToWaiting :: "Room \<Rightarrow> Room" where
  "resetToWaiting room =
     maybeApplyPendingCompaction
       (room\<lparr>stations := (\<lambda>i. map_option (\<lambda>s. s\<lparr>ready := False\<rparr>) (stations room i)),
              state := WAITING, startedAt := None, timeLeft := None,
              warned30 := False, warned60 := False\<rparr>)"

definition immediateEnd :: "Room \<Rightarrow> Room" where
  "immediateEnd room = room\<lparr>interval := False, timeLeft := Some 0, state := ENDED\<rparr>"

section \<open>socket.ts: what each handler does to the room it resolved\<close>

text \<open>\<open>cid\<close> is the \<open>clientId\<close> of the connection. Broadcasts are left out; an error is the one
  the handler reports through its callback.\<close>

definition central_removeStation :: "Room \<Rightarrow> clientId \<Rightarrow> int \<Rightarrow> outcome" where
  "central_removeStation room cid stationId =
     (if centralClientId room \<noteq> cid then (Some E_NOT_CENTRAL, room)
      else if stationId < 1 \<or> stationId > stationsCount room then (Some E_INVALID_STATION, room)
      else case stations room stationId of
        None \<Rightarrow> (Some E_INVALID_STATION, room)
      | Some slot \<Rightarrow>
          if state room = RUNNING
          then (None, room\<lparr>stations := (stations room)(stationId \<mapsto> release slot),
                           pendingCompaction := True\<rparr>)
          else (None, fst (renumberCompactIfWaiting room stationId)))"

text \<open>The callback the handlers install with \<open>setInterval\<close>: a tick whose time-up callback
  resets the room.\<close>

definition interval_tick :: "int \<Rightarrow> Room \<Rightarrow> Room \<times> event list" where
  "interval_tick now room =
     (let (r1, ev) = tick now room in
      if TimeUp \<in> set ev then (resetToWaiting r1, ev) else (r1, ev))"

definition auto_start :: "int \<Rightarrow> Room \<Rightarrow> Room" where
  "auto_start now room =
     (if allClaimedAndReady room \<and> state room = WAITING then
        (case startRound now room of
           (None, r) \<Rightarrow> r\<lparr>interval := True\<rparr>
         | (Some e, r) \<Rightarrow> r)
      else room)"

text \<open>\<open>joinSchema.partial().parse(payload)\<close> comes first: \<open>stationId\<close> may be absent, and when
  present it is an integer of at least 1, or the parse throws a \<open>ZodError\<close>, which the handler
  reports with the room untouched.\<close>

definition station_join :: "int \<Rightarrow> Room \<Rightarrow> clientId \<Rightarrow> int option \<Rightarrow> outcome" where
  "station_join now room cid stationId =
     (if (case stationId of None \<Rightarrow> False | Some x \<Rightarrow> x < 1) then (Some ZodError, room)
      else
        let bound = bindings room cid;
            targetId = (case stationId of None \<Rightarrow> bound | Some x \<Rightarrow> Some x)
        in if \<not> truthy_num targetId then (None, room)
           else case stations room (the targetId) of
             None \<Rightarrow> (Some E_INVALID_PAYLOAD, room)
           | Some slot \<Rightarrow>
               if truthy_str (ownerClientId slot) \<and> ownerClientId slot \<noteq> Some cid
               then (Some E_STATION_TAKEN, room)
               else (None, auto_start now
                       (room\<lparr>stations := (stations room)(the targetId \<mapsto>
                                  slot\<lparr>ownerClientId := Some cid, connected := True\<rparr>),
                             bindings := (bindings room)(cid \<mapsto> the targetId)\<rparr>)))"

definition station_leave :: "Room \<Rightarrow> clientId \<Rightarrow> outcome" where
  "station_leave room cid =
     (let sid = bindings room cid in
      if \<not> truthy_num sid then (None, room)
      else
        let st1 = (case stations room (the sid) of
                     None \<Rightarrow> stations room
                   | Some slot \<Rightarrow> (stations room)(the sid \<mapsto> release slot));
            r1 = room\<lparr>stations := st1, bindings := (bindings room)(cid := None)\<rparr>
        in if state r1 = RUNNING then (None, r1\<lparr>pendingCompaction := True\<rparr>)
           else (None, tailCompactIfWaiting r1))"

definition station_setReady :: "int \<Rightarrow> Room \<Rightarrow> clientId \<Rightarrow> bool \<Rightarrow> outcome" where
  "station_setReady now room cid rdy =
     (case setReady room cid rdy of
        (Some e, r) \<Rightarrow> (Some e, r)
      | (None, r) \<Rightarrow> (None, auto_start now r))"

definition central_resetRoom :: "Room \<Rightarrow> clientId \<Rightarrow> outcome" where
  "central_resetRoom room cid =
     (if centralClientId room \<noteq> cid then (Some E_NOT_CENTRAL, room)
      else (None, resetToWaiting (room\<lparr>interval := False\<rparr>)))"

definition central_skipRound :: "Room \<Rightarrow> clientId \<Rightarrow> outcome" where
  "central_skipRound room cid =
     (if centralClientId room \<noteq> cid then (Some E_NOT_CENTRAL, room)
      else if state room \<noteq> RUNNING then (Some E_BAD_STATE, room)
      else (None, maybeApplyPendingCompaction (resetToWaiting (immediateEnd room))))"

section \<open>The room invariant of the specification\<close>

text \<open>The keys of \<open>stations\<close> are exactly \<open>1..stationsCount\<close>, and a client is bound to a slot
  exactly when that slot names the client as its owner.\<close>

definition room_inv :: "Room \<Rightarrow> bool" where
  "room_inv room \<longleftrightarrow>
     dom (stations room) = {1 .. stationsCount room} \<and>
     (\<forall>c s. bindings room c = Some s \<longleftrightarrow>
            (\<exists>slot. stations room s = Some slot \<and> ownerClientId slot = Some c))"

text \<open>A slot is claimed and ready: it exists, its owner is a non-empty string, \<open>ready\<close> is set.\<close>

definition claimed_ready :: "Room \<Rightarrow> int \<Rightarrow> bool" where
  "claimed_ready room i =
     (case stations room i of None \<Rightarrow> False
      | Some s \<Rightarrow> truthy_str (ownerClientId s) \<and> ready s)"

text \<open>A slot is claimed: it exists and its owner is a non-empty string.\<close>

definition claimed :: "Room \<Rightarrow> int \<Rightarrow> bool" where
  "claimed room i =
     (case stations room i of None \<Rightarrow> False | Some s \<Rightarrow> truthy_str (ownerClientId s))"

text \<open>Slot \<open>j\<close> exists and names the non-empty client id \<open>c\<close> as its owner.\<close>

definition owned_by :: "Room \<Rightarrow> int \<Rightarrow> clientId \<Rightarrow> bool" where
  "owned_by room j c =
     (case stations room j of None \<Rightarrow> False | Some s \<Rightarrow> c \<noteq> [] \<and> ownerClientId s = Some c)"

text \<open>A slot is vacant: unclaimed, not ready and not connected.\<close>

definition vacant :: "StationSlot \<Rightarrow> bool" where
  "vacant s \<longleftrightarrow> \<not> truthy_str (ownerClientId s) \<and> \<not> ready s \<and> \<not> connected s"

section \<open>Example rooms\<close>

text \<open>The room of the repository's tests (\<open>createRoom(central, 2, 65)\<close>) after
  \<open>client-a\<close> claimed station 1 and \<open>client-b\<close> station 2 and both set ready.\<close>

definition slot_of :: "int \<Rightarrow> clientId option \<Rightarrow> bool \<Rightarrow> bool \<Rightarrow> StationSlot" where
  "slot_of i owner rdy conn = \<lparr>slot_id = i, ownerClientId = owner, ready = rdy, connected = conn\<rparr>"

definition room_both_ready :: Room where
  "room_both_ready =
     \<lparr>code = ''ROOM1'', centralClientId = ''central-1'', state = WAITING, stationsCount = 2,
      roundDurationSec = 65,
      stations = [1 \<mapsto> slot_of 1 (Some ''client-a'') True True,
                  2 \<mapsto> slot_of 2 (Some ''client-b'') True True],
      bindings = [''client-a'' \<mapsto> 1, ''client-b'' \<mapsto> 2],
      interval = False, timeLeft = None, startedAt = None,
      warned30 = False, warned60 = False, pendingCompaction = False\<rparr>"

text \<open>The same room with station 2 never claimed.\<close>

definition room_slot2_free :: Room where
  "room_slot2_free =
     room_both_ready\<lparr>stations := [1 \<mapsto> slot_of 1 (Some ''client-a'') True True,
                                   2 \<mapsto> slot_of 2 None False False],
                      bindings := [''client-a'' \<mapsto> 1]\<rparr>"

text \<open>The round started in that room at clock reading 1000, as \<open>startRound\<close> leaves it.\<close>

definition room_started :: Room where
  "room_started = room_both_ready\<lparr>state := RUNNING, startedAt := Some 1000, timeLeft := Some 65,
                                  warned30 := False, warned60 := False\<rparr>"

text \<open>The round of the test "no warn if dur<=30": the same, with a round of 20 seconds.\<close>

definition room_short_round :: Room where
  "room_short_round = room_started\<lparr>roundDurationSec := 20, timeLeft := Some 20\<rparr>"

text \<open>A room as \<open>createRoom(central, 2, 65)\<close> makes it: two fresh slots, nobody bound.\<close>

definition room_fresh :: Room where
  "room_fresh = room_both_ready\<lparr>stations := [1 \<mapsto> fresh_slot 1, 2 \<mapsto> fresh_slot 2],
                                bindings := Map.empty\<rparr>"

text \<open>The started round with its timer installed, as the handlers leave it; and the same
  after the controller removed station 2 during the round.\<close>

definition room_ticking :: Room where
  "room_ticking = room_started\<lparr>interval := True\<rparr>"

definition room_removed_running :: Room where
  "room_removed_running =
     room_ticking\<lparr>stations := [1 \<mapsto> slot_of 1 (Some ''client-a'') True True,
                                2 \<mapsto> slot_of 2 None False False],
                   pendingCompaction := True\<rparr>"

text \<open>A WAITING room of three stations, each with its owner.\<close>

definition room_three :: Room where
  "room_three =
     room_both_ready\<lparr>stationsCount := 3,
        stations := [1 \<mapsto> slot_of 1 (Some ''client-a'') True True,
                     2 \<mapsto> slot_of 2 (Some ''client-b'') False True,
                     3 \<mapsto> slot_of 3 (Some ''client-c'') True False],
        bindings := [''client-a'' \<mapsto> 1, ''client-b'' \<mapsto> 2, ''client-c'' \<mapsto> 3]\<rparr>"

text \<open>That room after station 1 was removed by renumber compaction.\<close>

definition room_three_less_one :: Room where
  "room_three_less_one =
     room_three\<lparr>stations := [1 \<mapsto> slot_of 1 (Some ''client-b'') False True,
                                2 \<mapsto> slot_of 2 (Some ''client-c'') True False],
                   bindings := [''client-a'' \<mapsto> 1, ''client-b'' \<mapsto> 1, ''client-c'' \<mapsto> 2],
                   stationsCount := 2\<rparr>"

text \<open>A fresh room of three stations in which \<open>client-a\<close> sent \<open>station:join\<close> for station 2
  and then for station 3: the client owns both and is bound to station 3.\<close>

definition room_joined_twice :: Room where
  "room_joined_twice =
     room_both_ready\<lparr>stationsCount := 3,
        stations := [1 \<mapsto> fresh_slot 1,
                     2 \<mapsto> slot_of 2 (Some ''client-a'') False True,
                     3 \<mapsto> slot_of 3 (Some ''client-a'') False True],
        bindings := [''client-a'' \<mapsto> 3]\<rparr>"

section \<open>Properties\<close>

lemma allClaimedAndReady_loop_iff:
  "allClaimedAndReady_loop room i \<longleftrightarrow>
     (\<forall>j. i \<le> j \<and> j \<le> stationsCount room \<longrightarrow> claimed_ready room j)"
proof (induction room i rule: allClaimedAndReady_loop.induct)
  case (1 room i)
  show ?case
  proof (cases "i \<le> stationsCount room")
    case False
    then show ?thesis
      by (subst allClaimedAndReady_loop.simps) auto
  next
    case le: True
    show ?thesis
    proof (cases "claimed_ready room i")
      case False
      then have "\<not> allClaimedAndReady_loop room i"
        using le by (subst allClaimedAndReady_loop.simps)
          (auto simp: claimed_ready_def split: option.splits)
      moreover have "\<not> (\<forall>j. i \<le> j \<and> j \<le> stationsCount room \<longrightarrow> claimed_ready room j)"
        using False le by auto
      ultimately show ?thesis by blast
    next
      case True
      then obtain s where s: "stations room i = Some s" "truthy_str (ownerClientId s)" "ready s"
        by (auto simp: claimed_ready_def split: option.splits)
      have "allClaimedAndReady_loop room i = allClaimedAndReady_loop room (i + 1)"
        using le s by (subst allClaimedAndReady_loop.simps) simp
      also have "\<dots> \<longleftrightarrow> (\<forall>j. i + 1 \<le> j \<and> j \<le> stationsCount room \<longrightarrow> claimed_ready room j)"
        using "1.IH"[OF le s(1)] s by simp
      also have "\<dots> \<longleftrightarrow> (\<forall>j. i \<le> j \<and> j \<le> stationsCount room \<longrightarrow> claimed_ready room j)"
      proof
        assume h: "\<forall>j. i + 1 \<le> j \<and> j \<le> stationsCount room \<longrightarrow> claimed_ready room j"
        show "\<forall>j. i \<le> j \<and> j \<le> stationsCount room \<longrightarrow> claimed_ready room j"
        proof (intro allI impI)
          fix j assume "i \<le> j \<and> j \<le> stationsCount room"
          then have "j = i \<or> (i + 1 \<le> j \<and> j \<le> stationsCount room)" by arith
          then show "claimed_ready room j" using h True by blast
        qed
      qed auto
      finally show ?thesis .
    qed
  qed
qed

subsection \<open>startRound\<close>

lemma allClaimedAndReady_iff:
  "allClaimedAndReady room \<longleftrightarrow>
     (\<forall>i. 1 \<le> i \<and> i \<le> stationsCount room \<longrightarrow> claimed_ready room i)"
  by (simp add: allClaimedAndReady_def allClaimedAndReady_loop_iff)

text \<open>C2. \<open>startRound\<close> succeeds exactly when the room is WAITING and every slot id in
  \<open>1..stationsCount\<close> has a non-empty owner and is ready, and then the room is RUNNING; in
  every other case it throws \<open>E_BAD_STATE\<close> and the room is as it was. In particular a
  RUNNING room is left untouched and the call throws \<open>E_BAD_STATE\<close>.\<close>

theorem startRound_succeeds_iff:
  "(fst (startRound now room) = None \<longleftrightarrow>
      state room = WAITING \<and>
      (\<forall>i. 1 \<le> i \<and> i \<le> stationsCount room \<longrightarrow> claimed_ready room i)) \<and>
   (fst (startRound now room) = None \<longrightarrow> state (snd (startRound now room)) = RUNNING) \<and>
   (fst (startRound now room) \<noteq> None \<longrightarrow> startRound now room = (Some E_BAD_STATE, room)) \<and>
   (state room = RUNNING \<longrightarrow> startRound now room = (Some E_BAD_STATE, room))"
  by (simp add: startRound_def allClaimedAndReady_iff)

lemma room_both_ready_claimed: "1 \<le> i \<and> i \<le> 2 \<Longrightarrow> claimed_ready room_both_ready i"
proof -
  assume "1 \<le> i \<and> i \<le> 2"
  then have "i = 1 \<or> i = 2" by arith
  then show ?thesis
    by (auto simp: claimed_ready_def room_both_ready_def slot_of_def truthy_str_def)
qed

theorem startRound_succeeds_iff_witness:
  "fst (startRound 1000 room_both_ready) = None \<and>
   state (snd (startRound 1000 room_both_ready)) = RUNNING \<and>
   startRound 1000 room_slot2_free = (Some E_BAD_STATE, room_slot2_free) \<and>
   startRound 2000 (snd (startRound 1000 room_both_ready)) =
     (Some E_BAD_STATE, snd (startRound 1000 room_both_ready))"
proof -
  have ok: "state room_both_ready = WAITING \<and>
      (\<forall>i. 1 \<le> i \<and> i \<le> stationsCount room_both_ready \<longrightarrow> claimed_ready room_both_ready i)"
    using room_both_ready_claimed by (simp add: room_both_ready_def)
  have a: "fst (startRound 1000 room_both_ready) = None"
    using startRound_succeeds_iff [of 1000 room_both_ready] ok by blast
  then have b: "state (snd (startRound 1000 room_both_ready)) = RUNNING"
    using startRound_succeeds_iff [of 1000 room_both_ready] by blast
  have "\<not> claimed_ready room_slot2_free 2"
    by (simp add: claimed_ready_def room_slot2_free_def slot_of_def truthy_str_def)
  moreover have "(1::int) \<le> 2 \<and> 2 \<le> stationsCount room_slot2_free"
    by (simp add: room_slot2_free_def room_both_ready_def)
  ultimately have "fst (startRound 1000 room_slot2_free) \<noteq> None"
    using startRound_succeeds_iff [of 1000 room_slot2_free] by blast
  then have c: "startRound 1000 room_slot2_free = (Some E_BAD_STATE, room_slot2_free)"
    using startRound_succeeds_iff [of 1000 room_slot2_free] by blast
  have d: "startRound 2000 (snd (startRound 1000 room_both_ready)) =
     (Some E_BAD_STATE, snd (startRound 1000 room_both_ready))"
    using startRound_succeeds_iff [of 2000 "snd (startRound 1000 room_both_ready)"] b by blast
  show ?thesis using a b c d by blast
qed

subsection \<open>tick: the one-shot warnings\<close>

lemma tick_Warn60_iff:
  "Warn60 \<in> set (snd (tick t r)) \<longleftrightarrow> \<not> warned60 r \<and> warn60_due r t"
  by (auto simp: tick_def tick_timeLeft_def warn60_due_def Let_def split: option.splits)

lemma tick_Warn30_iff:
  "Warn30 \<in> set (snd (tick t r)) \<longleftrightarrow> \<not> warned30 r \<and> warn30_due r t"
  by (auto simp: tick_def tick_timeLeft_def warn30_due_def Let_def split: option.splits)

lemma tick_warned60:
  "warned60 (fst (tick t r)) \<longleftrightarrow> warned60 r \<or> Warn60 \<in> set (snd (tick t r))"
  by (auto simp: tick_def Let_def split: option.splits)

lemma tick_warned30:
  "warned30 (fst (tick t r)) \<longleftrightarrow> warned30 r \<or> Warn30 \<in> set (snd (tick t r))"
  by (auto simp: tick_def Let_def split: option.splits)

lemma tick_count_Warn60:
  "count_list (snd (tick t r)) Warn60 = (if Warn60 \<in> set (snd (tick t r)) then 1 else 0)"
  by (auto simp: tick_def Let_def split: option.splits)

lemma tick_count_Warn30:
  "count_list (snd (tick t r)) Warn30 = (if Warn30 \<in> set (snd (tick t r)) then 1 else 0)"
  by (auto simp: tick_def Let_def split: option.splits)

lemma tick_roundDurationSec: "roundDurationSec (fst (tick t r)) = roundDurationSec r"
  by (auto simp: tick_def Let_def split: option.splits)

lemma fired_Cons: "fired ((r, t, ev) # tr) = ev @ fired tr"
  by (simp add: fired_def)

lemma fired_Nil: "fired [] = []"
  by (simp add: fired_def)

text \<open>Along any sequence of ticks the 60-second callback is called once if its latch is clear
  and some tick sees the mark, and not at all otherwise.\<close>

lemma count_Warn60:
  "count_list (fired (tick_trace r ts)) Warn60 =
     (if \<not> warned60 r \<and> (\<exists>(r', t, ev) \<in> set (tick_trace r ts). warn60_due r' t) then 1 else 0)"
proof (induction ts arbitrary: r)
  case Nil
  then show ?case by (simp add: fired_Nil)
next
  case (Cons t ts)
  let ?r' = "fst (tick t r)"
  have split: "count_list (fired (tick_trace r (t # ts))) Warn60 =
      count_list (snd (tick t r)) Warn60 + count_list (fired (tick_trace ?r' ts)) Warn60"
    by (simp add: fired_Cons)
  show ?case
  proof (cases "Warn60 \<in> set (snd (tick t r))")
    case True
    then have "warned60 ?r'" by (simp add: tick_warned60)
    then have "count_list (fired (tick_trace ?r' ts)) Warn60 = 0"
      using Cons.IH[of ?r'] by simp
    moreover have "\<not> warned60 r" "warn60_due r t"
      using True by (simp_all add: tick_Warn60_iff)
    ultimately show ?thesis using True split by (simp add: tick_count_Warn60)
  next
    case False
    then have w: "warned60 ?r' = warned60 r" by (simp add: tick_warned60)
    have "warned60 r \<or> \<not> warn60_due r t"
      using False by (auto simp: tick_Warn60_iff)
    then show ?thesis using False split Cons.IH[of ?r'] w
      by (auto simp: tick_count_Warn60)
  qed
qed

lemma count_Warn30:
  "count_list (fired (tick_trace r ts)) Warn30 =
     (if \<not> warned30 r \<and> (\<exists>(r', t, ev) \<in> set (tick_trace r ts). warn30_due r' t) then 1 else 0)"
proof (induction ts arbitrary: r)
  case Nil
  then show ?case by (simp add: fired_Nil)
next
  case (Cons t ts)
  let ?r' = "fst (tick t r)"
  have split: "count_list (fired (tick_trace r (t # ts))) Warn30 =
      count_list (snd (tick t r)) Warn30 + count_list (fired (tick_trace ?r' ts)) Warn30"
    by (simp add: fired_Cons)
  show ?case
  proof (cases "Warn30 \<in> set (snd (tick t r))")
    case True
    then have "warned30 ?r'" by (simp add: tick_warned30)
    then have "count_list (fired (tick_trace ?r' ts)) Warn30 = 0"
      using Cons.IH[of ?r'] by simp
    moreover have "\<not> warned30 r" "warn30_due r t"
      using True by (simp_all add: tick_Warn30_iff)
    ultimately show ?thesis using True split by (simp add: tick_count_Warn30)
  next
    case False
    then have w: "warned30 ?r' = warned30 r" by (simp add: tick_warned30)
    have "warned30 r \<or> \<not> warn30_due r t"
      using False by (auto simp: tick_Warn30_iff)
    then show ?thesis using False split Cons.IH[of ?r'] w
      by (auto simp: tick_count_Warn30)
  qed
qed

lemma tick_trace_fires_only_when_due:
  "\<forall>(r', t, ev) \<in> set (tick_trace r ts).
     (Warn60 \<in> set ev \<longrightarrow> warn60_due r' t) \<and> (Warn30 \<in> set ev \<longrightarrow> warn30_due r' t)"
  by (induction ts arbitrary: r) (auto simp: tick_Warn60_iff tick_Warn30_iff)

lemma tick_trace_roundDurationSec:
  "x \<in> set (tick_trace r ts) \<Longrightarrow> roundDurationSec (fst x) = roundDurationSec r"
  by (induction ts arbitrary: r) (auto simp: tick_roundDurationSec)

lemma short_round_never_due:
  "roundDurationSec r \<le> 30 \<Longrightarrow> \<not> warn60_due r t \<and> \<not> warn30_due r t"
  by (simp add: warn60_due_def warn30_due_def)

lemma short_round_no_warning:
  assumes "roundDurationSec r \<le> 30"
  shows "Warn60 \<notin> set (fired (tick_trace r ts)) \<and> Warn30 \<notin> set (fired (tick_trace r ts))"
proof -
  have "\<forall>(r', t, ev) \<in> set (tick_trace r ts). Warn60 \<notin> set ev \<and> Warn30 \<notin> set ev"
    using tick_trace_fires_only_when_due[of r ts] tick_trace_roundDurationSec[of _ r ts]
      short_round_never_due assms by fastforce
  then show ?thesis by (auto simp: fired_def)
qed

lemma startRound_clears_latches:
  "startRound now room0 = (None, room) \<Longrightarrow> \<not> warned60 room \<and> \<not> warned30 room"
  by (auto simp: startRound_def split: if_splits)

text \<open>C3 as stated fails in one point: a warning need not be called at all. The remaining
  time is recomputed from the clock at every tick and compared with \<open>===\<close>, so a round whose
  ticks fall at elapsed 4, 6, 36 and 65 seconds never computes 60 or 30: it runs to its
  time-up with a duration of 65 seconds and calls neither warning.\<close>

theorem warnings_skipped_round:
  "startRound 1000 room_both_ready = (None, room_started) \<and>
   roundDurationSec room_started = 65 \<and>
   fired (tick_trace room_started [5000, 7000, 37000, 66000]) = [TimeUp]"
proof -
  have "allClaimedAndReady room_both_ready"
    using room_both_ready_claimed by (simp add: allClaimedAndReady_iff room_both_ready_def)
  then have "startRound 1000 room_both_ready = (None, room_started)"
    by (simp add: startRound_def room_started_def) (simp add: room_both_ready_def)
  moreover have "roundDurationSec room_started = 65"
    by (simp add: room_started_def room_both_ready_def)
  moreover have "fired (tick_trace room_started [5000, 7000, 37000, 66000]) = [TimeUp]"
    by (simp add: room_started_def tick_def fired_def room_both_ready_def Let_def)
  ultimately show ?thesis by blast
qed

lemma round_step_Warn60_iff:
  "Warn60 \<in> set (snd (round_step x r)) \<longleftrightarrow> (\<exists>t. x = Tick t \<and> \<not> warned60 r \<and> warn60_due r t)"
  by (cases x) (simp_all add: tick_Warn60_iff)

lemma round_step_Warn30_iff:
  "Warn30 \<in> set (snd (round_step x r)) \<longleftrightarrow> (\<exists>t. x = Tick t \<and> \<not> warned30 r \<and> warn30_due r t)"
  by (cases x) (simp_all add: tick_Warn30_iff)

lemma round_trace_fires_iff:
  "\<forall>(r', x, ev) \<in> set (round_trace r xs).
     (Warn60 \<in> set ev \<longleftrightarrow> (\<exists>t. x = Tick t \<and> \<not> warned60 r' \<and> warn60_due r' t)) \<and>
     (Warn30 \<in> set ev \<longleftrightarrow> (\<exists>t. x = Tick t \<and> \<not> warned30 r' \<and> warn30_due r' t))"
proof (induction xs arbitrary: r)
  case Nil
  then show ?case by simp
next
  case (Cons x xs)
  show ?case
    using Cons.IH[of "fst (round_step x r)"] round_step_Warn60_iff[of x r]
      round_step_Warn30_iff[of x r]
    by simp
qed

lemma round_step_count_Warn60:
  "count_list (snd (round_step x r)) Warn60 =
     (if Warn60 \<in> set (snd (round_step x r)) then 1 else 0)"
  by (cases x) (simp_all add: tick_count_Warn60)

lemma round_step_count_Warn30:
  "count_list (snd (round_step x r)) Warn30 =
     (if Warn30 \<in> set (snd (round_step x r)) then 1 else 0)"
  by (cases x) (simp_all add: tick_count_Warn30)

lemma round_step_roundDurationSec:
  "roundDurationSec (fst (round_step x r)) = roundDurationSec r"
  by (cases x) (simp_all add: tick_roundDurationSec stopRound_def resumeRound_def Let_def)

lemma div_later: "(now::int) \<le> t \<Longrightarrow> (now - sa) div 1000 \<le> (t - sa) div 1000"
  by (rule zdiv_mono1) simp_all

lemma latched_later:
  assumes "latched m w r now" and "now \<le> t"
  shows "latched m w r t"
proof -
  have "roundDurationSec r - (t - sa) div 1000 \<le> m"
    if "roundDurationSec r - (now - sa) div 1000 \<le> m" for sa
    using that div_later[OF assms(2), of sa] by simp
  then show ?thesis using assms(1) unfolding latched_def by blast
qed

lemma latched60_step:
  assumes "latched 60 (warned60 r) r now" and "now \<le> op_time x"
  shows "latched 60 (warned60 (fst (round_step x r))) (fst (round_step x r)) (op_time x)"
proof (cases x)
  case (Tick t)
  show ?thesis
  proof (cases "state r = RUNNING")
    case True
    then obtain sa where sa: "startedAt r = Some sa"
        "roundDurationSec r - (now - sa) div 1000 \<le> 60"
      using assms(1) by (auto simp: latched_def)
    have "roundDurationSec r - (t - sa) div 1000 \<le> 60"
      using sa(2) div_later[of now t sa] assms(2) Tick by simp
    then show ?thesis
      using assms(1) True sa(1) Tick by (auto simp: latched_def tick_def Let_def)
  next
    case False
    then have "fst (tick t r) = r" by (simp add: tick_def)
    then show ?thesis using assms(1) False Tick by (auto simp: latched_def)
  qed
next
  case (Pause t)
  show ?thesis
  proof (cases "state r = RUNNING")
    case True
    then obtain sa where sa: "startedAt r = Some sa"
        "roundDurationSec r - (now - sa) div 1000 \<le> 60"
      using assms(1) by (auto simp: latched_def)
    have "roundDurationSec r - (t - sa) div 1000 \<le> 60"
      using sa(2) div_later[of now t sa] assms(2) Pause by simp
    then show ?thesis
      using assms(1) True sa(1) Pause by (auto simp: latched_def stopRound_def)
  next
    case False
    then show ?thesis using assms(1) Pause by (auto simp: latched_def stopRound_def)
  qed
next
  case (Resume t)
  show ?thesis
  proof (cases "state r = ENDED \<and> 0 < (case timeLeft r of None \<Rightarrow> 0 | Some x \<Rightarrow> x)")
    case True
    then have "(case timeLeft r of None \<Rightarrow> 0 | Some x \<Rightarrow> x) \<le> 60"
      using assms(1) by (auto simp: latched_def)
    then show ?thesis
      using True Resume by (auto simp: latched_def resumeRound_def Let_def)
  next
    case False
    then have "snd (resumeRound t r) = r" by (auto simp: resumeRound_def Let_def)
    then show ?thesis using latched_later[OF assms] Resume by simp
  qed
qed


lemma latched30_step:
  assumes "latched 30 (warned30 r) r now" and "now \<le> op_time x"
  shows "latched 30 (warned30 (fst (round_step x r))) (fst (round_step x r)) (op_time x)"
proof (cases x)
  case (Tick t)
  show ?thesis
  proof (cases "state r = RUNNING")
    case True
    then obtain sa where sa: "startedAt r = Some sa"
        "roundDurationSec r - (now - sa) div 1000 \<le> 30"
      using assms(1) by (auto simp: latched_def)
    have "roundDurationSec r - (t - sa) div 1000 \<le> 30"
      using sa(2) div_later[of now t sa] assms(2) Tick by simp
    then show ?thesis
      using assms(1) True sa(1) Tick by (auto simp: latched_def tick_def Let_def)
  next
    case False
    then have "fst (tick t r) = r" by (simp add: tick_def)
    then show ?thesis using latched_later[OF assms] Tick by simp
  qed
next
  case (Pause t)
  show ?thesis
  proof (cases "state r = RUNNING")
    case True
    then obtain sa where sa: "startedAt r = Some sa"
        "roundDurationSec r - (now - sa) div 1000 \<le> 30"
      using assms(1) by (auto simp: latched_def)
    have "roundDurationSec r - (t - sa) div 1000 \<le> 30"
      using sa(2) div_later[of now t sa] assms(2) Pause by simp
    then show ?thesis
      using assms(1) True sa(1) Pause by (auto simp: latched_def stopRound_def)
  next
    case False
    then have "snd (stopRound t r) = r" by (simp add: stopRound_def)
    then show ?thesis using latched_later[OF assms] Pause by simp
  qed
next
  case (Resume t)
  show ?thesis
  proof (cases "state r = ENDED \<and> 0 < (case timeLeft r of None \<Rightarrow> 0 | Some x \<Rightarrow> x)")
    case True
    then have "(case timeLeft r of None \<Rightarrow> 0 | Some x \<Rightarrow> x) \<le> 30"
      using assms(1) by (auto simp: latched_def)
    then show ?thesis
      using True Resume by (auto simp: latched_def resumeRound_def Let_def)
  next
    case False
    then have "snd (resumeRound t r) = r" by (auto simp: resumeRound_def Let_def)
    then show ?thesis using latched_later[OF assms] Resume by simp
  qed
qed

lemma fire60_latches:
  assumes "Warn60 \<in> set (snd (round_step x r))"
  shows "latched 60 (warned60 (fst (round_step x r))) (fst (round_step x r)) (op_time x)"
proof -
  obtain t where t: "x = Tick t" "\<not> warned60 r" "warn60_due r t"
    using assms round_step_Warn60_iff by blast
  then obtain sa where sa: "state r = RUNNING" "startedAt r = Some sa"
      "max 0 (roundDurationSec r - (t - sa) div 1000) = 60"
    by (auto simp: warn60_due_def tick_timeLeft_def split: if_splits option.splits)
  then have "roundDurationSec r - (t - sa) div 1000 = 60" by simp
  then show ?thesis using t sa
    by (auto simp: latched_def tick_def Let_def warn60_due_def)
qed

lemma fire30_latches:
  assumes "Warn30 \<in> set (snd (round_step x r))"
  shows "latched 30 (warned30 (fst (round_step x r))) (fst (round_step x r)) (op_time x)"
proof -
  obtain t where t: "x = Tick t" "\<not> warned30 r" "warn30_due r t"
    using assms round_step_Warn30_iff by blast
  then obtain sa where sa: "state r = RUNNING" "startedAt r = Some sa"
      "max 0 (roundDurationSec r - (t - sa) div 1000) = 30"
    by (auto simp: warn30_due_def tick_timeLeft_def split: if_splits option.splits)
  then have "roundDurationSec r - (t - sa) div 1000 = 30" by simp
  then show ?thesis using t sa
    by (auto simp: latched_def tick_def Let_def warn30_due_def)
qed

lemma latched60_silent:
  "latched 60 (warned60 r) r now \<Longrightarrow> sorted (now # map op_time xs) \<Longrightarrow>
     count_list (fired (round_trace r xs)) Warn60 = 0"
proof (induction xs arbitrary: r now)
  case Nil
  then show ?case by (simp add: fired_Nil)
next
  case (Cons x xs)
  have le: "now \<le> op_time x" and srt: "sorted (op_time x # map op_time xs)"
    using Cons.prems(2) by simp_all
  have w: "warned60 r" using Cons.prems(1) by (simp add: latched_def)
  then have quiet: "Warn60 \<notin> set (snd (round_step x r))"
    by (simp add: round_step_Warn60_iff)
  have "count_list (fired (round_trace (fst (round_step x r)) xs)) Warn60 = 0"
    using Cons.IH[OF latched60_step[OF Cons.prems(1) le] srt] .
  then show ?case using quiet by (simp add: fired_Cons round_step_count_Warn60)
qed

lemma latched30_silent:
  "latched 30 (warned30 r) r now \<Longrightarrow> sorted (now # map op_time xs) \<Longrightarrow>
     count_list (fired (round_trace r xs)) Warn30 = 0"
proof (induction xs arbitrary: r now)
  case Nil
  then show ?case by (simp add: fired_Nil)
next
  case (Cons x xs)
  have le: "now \<le> op_time x" and srt: "sorted (op_time x # map op_time xs)"
    using Cons.prems(2) by simp_all
  have w: "warned30 r" using Cons.prems(1) by (simp add: latched_def)
  then have quiet: "Warn30 \<notin> set (snd (round_step x r))"
    by (simp add: round_step_Warn30_iff)
  have "count_list (fired (round_trace (fst (round_step x r)) xs)) Warn30 = 0"
    using Cons.IH[OF latched30_step[OF Cons.prems(1) le] srt] .
  then show ?case using quiet by (simp add: fired_Cons round_step_count_Warn30)
qed

lemma round_count_Warn60_le_1:
  "sorted (map op_time xs) \<Longrightarrow> count_list (fired (round_trace r xs)) Warn60 \<le> 1"
proof (induction xs arbitrary: r)
  case Nil
  then show ?case by (simp add: fired_Nil)
next
  case (Cons x xs)
  have srt: "sorted (op_time x # map op_time xs)" "sorted (map op_time xs)"
    using Cons.prems by simp_all
  show ?case
  proof (cases "Warn60 \<in> set (snd (round_step x r))")
    case True
    have "count_list (fired (round_trace (fst (round_step x r)) xs)) Warn60 = 0"
      using latched60_silent[OF fire60_latches[OF True] srt(1)] .
    then show ?thesis using True by (simp add: fired_Cons round_step_count_Warn60)
  next
    case False
    then show ?thesis using Cons.IH[OF srt(2), of "fst (round_step x r)"]
      by (simp add: fired_Cons round_step_count_Warn60)
  qed
qed

lemma round_count_Warn30_le_1:
  "sorted (map op_time xs) \<Longrightarrow> count_list (fired (round_trace r xs)) Warn30 \<le> 1"
proof (induction xs arbitrary: r)
  case Nil
  then show ?case by (simp add: fired_Nil)
next
  case (Cons x xs)
  have srt: "sorted (op_time x # map op_time xs)" "sorted (map op_time xs)"
    using Cons.prems by simp_all
  show ?case
  proof (cases "Warn30 \<in> set (snd (round_step x r))")
    case True
    have "count_list (fired (round_trace (fst (round_step x r)) xs)) Warn30 = 0"
      using latched30_silent[OF fire30_latches[OF True] srt(1)] .
    then show ?thesis using True by (simp add: fired_Cons round_step_count_Warn30)
  next
    case False
    then show ?thesis using Cons.IH[OF srt(2), of "fst (round_step x r)"]
      by (simp add: fired_Cons round_step_count_Warn30)
  qed
qed

lemma round_short_no_warning:
  assumes "roundDurationSec r \<le> 30"
  shows "Warn60 \<notin> set (fired (round_trace r xs)) \<and> Warn30 \<notin> set (fired (round_trace r xs))"
  using assms
proof (induction xs arbitrary: r)
  case Nil
  then show ?case by (simp add: fired_Nil)
next
  case (Cons x xs)
  have "roundDurationSec (fst (round_step x r)) \<le> 30"
    using Cons.prems by (simp add: round_step_roundDurationSec)
  then have rest: "Warn60 \<notin> set (fired (round_trace (fst (round_step x r)) xs)) \<and>
      Warn30 \<notin> set (fired (round_trace (fst (round_step x r)) xs))"
    by (rule Cons.IH)
  have "Warn60 \<notin> set (snd (round_step x r)) \<and> Warn30 \<notin> set (snd (round_step x r))"
    using short_round_never_due[OF Cons.prems]
    by (simp add: round_step_Warn60_iff round_step_Warn30_iff)
  then show ?case using rest by (simp add: fired_Cons)
qed

lemma round_trace_ticks:
  "round_trace r (map Tick ts) = map (\<lambda>(r', t, ev). (r', Tick t, ev)) (tick_trace r ts)"
  by (induction ts arbitrary: r) simp_all

text \<open>C3, amended. In any room and over any sequence of ticks, pauses and resumes, whatever
  the clock readings: a step calls the warn-60 callback exactly when it is a tick that runs
  in a RUNNING room whose latch \<open>warned60\<close> is clear and computes a remaining time of exactly
  60 for a round of at least 60 seconds, and the warn-30 callback exactly when it is such a
  tick with \<open>warned30\<close> clear that computes exactly 30 for a round of more than 30 seconds.
  When the clock readings never go back, each of the two is called at most once. With a round
  of at most 30 seconds neither is ever called. Over a sequence of ticks alone, in a round
  begun by \<open>startRound\<close>, each is called exactly once if some tick sees its mark and not at
  all otherwise; a sequence of ticks alone is a round with no pause in it.\<close>

theorem warnings_fire_once:
  "(\<forall>(r, x, ev) \<in> set (round_trace room xs).
      (Warn60 \<in> set ev \<longleftrightarrow> (\<exists>t. x = Tick t \<and> \<not> warned60 r \<and> warn60_due r t)) \<and>
      (Warn30 \<in> set ev \<longleftrightarrow> (\<exists>t. x = Tick t \<and> \<not> warned30 r \<and> warn30_due r t))) \<and>
   (sorted (map op_time xs) \<longrightarrow>
      count_list (fired (round_trace room xs)) Warn60 \<le> 1 \<and>
      count_list (fired (round_trace room xs)) Warn30 \<le> 1) \<and>
   (roundDurationSec room \<le> 30 \<longrightarrow>
      Warn60 \<notin> set (fired (round_trace room xs)) \<and>
      Warn30 \<notin> set (fired (round_trace room xs))) \<and>
   (\<forall>(r, t, ev) \<in> set (tick_trace room ts).
      (Warn60 \<in> set ev \<longrightarrow> warn60_due r t) \<and> (Warn30 \<in> set ev \<longrightarrow> warn30_due r t)) \<and>
   (startRound now room0 = (None, room) \<longrightarrow>
      count_list (fired (tick_trace room ts)) Warn60 =
        (if \<exists>(r, t, ev) \<in> set (tick_trace room ts). warn60_due r t then 1 else 0) \<and>
      count_list (fired (tick_trace room ts)) Warn30 =
        (if \<exists>(r, t, ev) \<in> set (tick_trace room ts). warn30_due r t then 1 else 0)) \<and>
   (roundDurationSec room \<le> 30 \<longrightarrow>
      Warn60 \<notin> set (fired (tick_trace room ts)) \<and> Warn30 \<notin> set (fired (tick_trace room ts))) \<and>
   round_trace room (map Tick ts) = map (\<lambda>(r, t, ev). (r, Tick t, ev)) (tick_trace room ts)"
proof -
  have a: "\<forall>(r, x, ev) \<in> set (round_trace room xs).
      (Warn60 \<in> set ev \<longleftrightarrow> (\<exists>t. x = Tick t \<and> \<not> warned60 r \<and> warn60_due r t)) \<and>
      (Warn30 \<in> set ev \<longleftrightarrow> (\<exists>t. x = Tick t \<and> \<not> warned30 r \<and> warn30_due r t))"
    by (rule round_trace_fires_iff)
  have b: "sorted (map op_time xs) \<longrightarrow>
      count_list (fired (round_trace room xs)) Warn60 \<le> 1 \<and>
      count_list (fired (round_trace room xs)) Warn30 \<le> 1"
    using round_count_Warn60_le_1[of xs room] round_count_Warn30_le_1[of xs room] by blast
  have c: "roundDurationSec room \<le> 30 \<longrightarrow>
      Warn60 \<notin> set (fired (round_trace room xs)) \<and>
      Warn30 \<notin> set (fired (round_trace room xs))"
    using round_short_no_warning[of room xs] by blast
  have d: "(\<forall>(r, t, ev) \<in> set (tick_trace room ts).
      (Warn60 \<in> set ev \<longrightarrow> warn60_due r t) \<and> (Warn30 \<in> set ev \<longrightarrow> warn30_due r t)) \<and>
   (startRound now room0 = (None, room) \<longrightarrow>
      count_list (fired (tick_trace room ts)) Warn60 =
        (if \<exists>(r, t, ev) \<in> set (tick_trace room ts). warn60_due r t then 1 else 0) \<and>
      count_list (fired (tick_trace room ts)) Warn30 =
        (if \<exists>(r, t, ev) \<in> set (tick_trace room ts). warn30_due r t then 1 else 0)) \<and>
   (roundDurationSec room \<le> 30 \<longrightarrow>
      Warn60 \<notin> set (fired (tick_trace room ts)) \<and> Warn30 \<notin> set (fired (tick_trace room ts)))"
    using tick_trace_fires_only_when_due[of room ts] count_Warn60[of room ts]
      count_Warn30[of room ts] short_round_no_warning[of room ts]
      startRound_clears_latches[of now room0 room]
    by simp
  have e: "round_trace room (map Tick ts) =
      map (\<lambda>(r, t, ev). (r, Tick t, ev)) (tick_trace room ts)"
    by (rule round_trace_ticks)
  show ?thesis using a b c d e by blast
qed

lemma startRound_room_both_ready: "startRound 1000 room_both_ready = (None, room_started)"
  unfolding startRound_def room_started_def
  using room_both_ready_claimed
  by (simp add: allClaimedAndReady_iff) (simp add: room_both_ready_def)

text \<open>The started 65-second round ticked at elapsed 1, 5, 5.5, 6, 35, 35.999, 65 and 66
  seconds; the 20-second round ticked at the same readings. Then the 65-second round with a
  pause after its 60-second warning, and with a pause that lands on the 60-second mark
  before any tick saw it: resumed with the latch set, it calls the 30-second warning only.\<close>

theorem warnings_fire_once_witness:
  "startRound 1000 room_both_ready = (None, room_started) \<and>
   fired (tick_trace room_started [2000, 6000, 6500, 7000, 36000, 36999, 66000, 67000]) =
     [Warn60, Warn30, TimeUp] \<and>
   count_list (fired (tick_trace room_started
       [2000, 6000, 6500, 7000, 36000, 36999, 66000, 67000])) Warn60 = 1 \<and>
   count_list (fired (tick_trace room_started
       [2000, 6000, 6500, 7000, 36000, 36999, 66000, 67000])) Warn30 = 1 \<and>
   roundDurationSec room_short_round \<le> 30 \<and>
   fired (tick_trace room_short_round [2000, 6000, 6500, 7000, 36000, 36999, 66000, 67000]) =
     [TimeUp] \<and>
   Warn60 \<notin> set (fired (tick_trace room_short_round
       [2000, 6000, 6500, 7000, 36000, 36999, 66000, 67000])) \<and>
   Warn30 \<notin> set (fired (tick_trace room_short_round
       [2000, 6000, 6500, 7000, 36000, 36999, 66000, 67000])) \<and>
   sorted (map op_time [Tick 2000, Tick 6000, Pause 6500, Resume 100000, Tick 100000,
       Tick 130000, Tick 160000]) \<and>
   fired (round_trace room_started [Tick 2000, Tick 6000, Pause 6500, Resume 100000,
       Tick 100000, Tick 130000, Tick 160000]) = [Warn60, Warn30, TimeUp] \<and>
   count_list (fired (round_trace room_started [Tick 2000, Tick 6000, Pause 6500,
       Resume 100000, Tick 100000, Tick 130000, Tick 160000])) Warn60 \<le> 1 \<and>
   count_list (fired (round_trace room_started [Tick 2000, Tick 6000, Pause 6500,
       Resume 100000, Tick 100000, Tick 130000, Tick 160000])) Warn30 \<le> 1 \<and>
   fired (round_trace room_started [Tick 5000, Pause 6000, Resume 10000, Tick 10000,
       Tick 40000, Tick 70000]) = [Warn30, TimeUp] \<and>
   fired (round_trace room_short_round [Tick 2000, Tick 6000, Pause 6500, Resume 100000,
       Tick 100000, Tick 130000, Tick 160000]) = [TimeUp] \<and>
   Warn60 \<notin> set (fired (round_trace room_short_round [Tick 2000, Tick 6000, Pause 6500,
       Resume 100000, Tick 100000, Tick 130000, Tick 160000])) \<and>
   Warn30 \<notin> set (fired (round_trace room_short_round [Tick 2000, Tick 6000, Pause 6500,
       Resume 100000, Tick 100000, Tick 130000, Tick 160000]))"
proof -
  let ?ts = "[2000, 6000, 6500, 7000, 36000, 36999, 66000, 67000] :: int list"
  let ?xs = "[Tick 2000, Tick 6000, Pause 6500, Resume 100000, Tick 100000, Tick 130000,
       Tick 160000]"
  let ?ys = "[Tick 5000, Pause 6000, Resume 10000, Tick 10000, Tick 40000, Tick 70000]"
  have ev: "fired (tick_trace room_started ?ts) = [Warn60, Warn30, TimeUp]"
    by (simp add: room_started_def tick_def fired_def room_both_ready_def Let_def)
  have due60: "\<exists>(r, t, ev) \<in> set (tick_trace room_started ?ts). warn60_due r t"
    by (simp add: room_started_def tick_def room_both_ready_def Let_def warn60_due_def
        tick_timeLeft_def)
  have due30: "\<exists>(r, t, ev) \<in> set (tick_trace room_started ?ts). warn30_due r t"
    by (simp add: room_started_def tick_def room_both_ready_def Let_def warn30_due_def
        tick_timeLeft_def)
  have short: "roundDurationSec room_short_round \<le> 30"
    by (simp add: room_short_round_def)
  have ev_short: "fired (tick_trace room_short_round ?ts) = [TimeUp]"
    by (simp add: room_short_round_def room_started_def tick_def fired_def
        room_both_ready_def Let_def)
  have srt: "sorted (map op_time ?xs)"
    by simp
  have ev_xs: "fired (round_trace room_started ?xs) = [Warn60, Warn30, TimeUp]"
    by (simp add: room_started_def tick_def stopRound_def resumeRound_def fired_def
        room_both_ready_def Let_def)
  have ev_ys: "fired (round_trace room_started ?ys) = [Warn30, TimeUp]"
    by (simp add: room_started_def tick_def stopRound_def resumeRound_def fired_def
        room_both_ready_def Let_def)
  have ev_short_xs: "fired (round_trace room_short_round ?xs) = [TimeUp]"
    by (simp add: room_short_round_def room_started_def tick_def stopRound_def
        resumeRound_def fired_def room_both_ready_def Let_def)
  note long = warnings_fire_once[of room_started ?xs ?ts 1000 room_both_ready]
  note brief = warnings_fire_once[of room_short_round ?xs ?ts 1000 room_both_ready]
  have c60: "count_list (fired (tick_trace room_started ?ts)) Warn60 = 1"
    using long startRound_room_both_ready due60 by simp
  have c30: "count_list (fired (tick_trace room_started ?ts)) Warn30 = 1"
    using long startRound_room_both_ready due30 by simp
  have once: "count_list (fired (round_trace room_started ?xs)) Warn60 \<le> 1"
      "count_list (fired (round_trace room_started ?xs)) Warn30 \<le> 1"
    using long srt by blast+
  have never: "Warn60 \<notin> set (fired (tick_trace room_short_round ?ts))"
      "Warn30 \<notin> set (fired (tick_trace room_short_round ?ts))"
      "Warn60 \<notin> set (fired (round_trace room_short_round ?xs))"
      "Warn30 \<notin> set (fired (round_trace room_short_round ?xs))"
    using brief short by blast+
  show ?thesis
    using startRound_room_both_ready ev c60 c30 short ev_short never srt ev_xs once ev_ys
      ev_short_xs
    by blast
qed

subsection \<open>stopRound and resumeRound\<close>

text \<open>C4. In every RUNNING room, \<open>stopRound\<close> at clock reading \<open>t1\<close> succeeds, ends the
  round and freezes \<open>timeLeft = max 0 (roundDurationSec - elapsed)\<close>, where \<open>elapsed\<close> is
  \<open>floor ((t1 - startedAt) / 1000)\<close>, and 0 should \<open>startedAt\<close> be unset. If that retained
  \<open>tl\<close> is positive, \<open>resumeRound\<close> at any later reading \<open>t2\<close> succeeds and sets \<open>startedAt\<close>
  so that \<open>roundDurationSec - elapsed = tl\<close> at \<open>t2\<close>: the retained \<open>timeLeft\<close> is kept, a
  tick at the instant of resume recomputes the same value, and the latches are set exactly
  when \<open>tl \<le> 60\<close> and \<open>tl \<le> 30\<close>. With nothing left, resume throws \<open>E_BAD_STATE\<close>.\<close>

theorem pause_resume_roundtrip:
  assumes "state room = RUNNING"
  shows "\<exists>r1 tl.
           stopRound t1 room = (None, r1) \<and> state r1 = ENDED \<and> \<not> interval r1 \<and>
           tl = max 0 (roundDurationSec room -
                  (t1 - (case startedAt room of None \<Rightarrow> t1 | Some sa \<Rightarrow> sa)) div 1000) \<and>
           timeLeft r1 = Some tl \<and>
           (tl \<le> 0 \<longrightarrow> resumeRound t2 r1 = (Some E_BAD_STATE, r1)) \<and>
           (tl > 0 \<longrightarrow>
              (\<exists>r2 sa'.
                 resumeRound t2 r1 = (None, r2) \<and> state r2 = RUNNING \<and>
                 startedAt r2 = Some sa' \<and>
                 roundDurationSec r2 - (t2 - sa') div 1000 = tl \<and>
                 timeLeft r2 = Some tl \<and>
                 timeLeft (fst (tick t2 r2)) = Some tl \<and>
                 (warned60 r2 \<longleftrightarrow> tl \<le> 60) \<and> (warned30 r2 \<longleftrightarrow> tl \<le> 30)))"
  using assms
  by (simp add: stopRound_def resumeRound_def tick_def Let_def)

lemma stopRound_room_started:
  "stopRound 36500 room_started =
     (None, room_started\<lparr>state := ENDED, interval := False, timeLeft := Some 30\<rparr>)"
  by (simp add: stopRound_def room_started_def room_both_ready_def)

theorem pause_resume_roundtrip_witness:
  "state room_started = RUNNING \<and> startedAt room_started = Some 1000 \<and>
   (\<exists>r1. stopRound 36500 room_started = (None, r1) \<and> timeLeft r1 = Some 30 \<and>
      (\<exists>r2. resumeRound 100000 r1 = (None, r2) \<and> startedAt r2 = Some 65000 \<and>
         timeLeft (fst (tick 100000 r2)) = Some 30 \<and> warned60 r2 \<and> warned30 r2)) \<and>
   (\<exists>r1. stopRound 70000 room_started = (None, r1) \<and> timeLeft r1 = Some 0 \<and>
      resumeRound 100000 r1 = (Some E_BAD_STATE, r1))"
proof -
  have h: "state room_started = RUNNING" "startedAt room_started = Some 1000"
    by (simp_all add: room_started_def)
  obtain r1 tl where r1: "stopRound 36500 room_started = (None, r1)"
      "tl = max 0 (roundDurationSec room_started -
              (36500 - (case startedAt room_started of None \<Rightarrow> 36500 | Some sa \<Rightarrow> sa)) div 1000)"
      "timeLeft r1 = Some tl"
      "tl > 0 \<longrightarrow> (\<exists>r2 sa'. resumeRound 100000 r1 = (None, r2) \<and> state r2 = RUNNING \<and>
                 startedAt r2 = Some sa' \<and>
                 roundDurationSec r2 - (100000 - sa') div 1000 = tl \<and>
                 timeLeft r2 = Some tl \<and>
                 timeLeft (fst (tick 100000 r2)) = Some tl \<and>
                 (warned60 r2 \<longleftrightarrow> tl \<le> 60) \<and> (warned30 r2 \<longleftrightarrow> tl \<le> 30))"
    using pause_resume_roundtrip[OF h(1), of 36500 100000] by blast
  have tl: "tl = 30" using r1(2) by (simp add: room_started_def room_both_ready_def)
  then obtain r2 sa' where r2: "resumeRound 100000 r1 = (None, r2)" "startedAt r2 = Some sa'"
      "timeLeft (fst (tick 100000 r2)) = Some 30" "warned60 r2" "warned30 r2"
    using r1(4) by auto
  have "r1 = room_started\<lparr>state := ENDED, interval := False, timeLeft := Some 30\<rparr>"
    using r1(1) stopRound_room_started by simp
  then have sa: "sa' = 65000"
    using r2(1,2) by (auto simp: resumeRound_def room_started_def room_both_ready_def)
  obtain q1 tl0 where q1: "stopRound 70000 room_started = (None, q1)"
      "tl0 = max 0 (roundDurationSec room_started -
              (70000 - (case startedAt room_started of None \<Rightarrow> 70000 | Some sa \<Rightarrow> sa)) div 1000)"
      "timeLeft q1 = Some tl0"
      "tl0 \<le> 0 \<longrightarrow> resumeRound 100000 q1 = (Some E_BAD_STATE, q1)"
    using pause_resume_roundtrip[OF h(1), of 70000 100000] by blast
  have tl0: "tl0 = 0" using q1(2) by (simp add: room_started_def room_both_ready_def)
  have first: "\<exists>r1. stopRound 36500 room_started = (None, r1) \<and> timeLeft r1 = Some 30 \<and>
      (\<exists>r2. resumeRound 100000 r1 = (None, r2) \<and> startedAt r2 = Some 65000 \<and>
         timeLeft (fst (tick 100000 r2)) = Some 30 \<and> warned60 r2 \<and> warned30 r2)"
    using r1 tl r2 sa by auto
  have second: "\<exists>r1. stopRound 70000 room_started = (None, r1) \<and> timeLeft r1 = Some 0 \<and>
      resumeRound 100000 r1 = (Some E_BAD_STATE, r1)"
    using q1 tl0 by auto
  show ?thesis using h first second by blast
qed

subsection \<open>updateConfig\<close>

lemma inUse_loop_iff:
  "inUse_loop room i \<longleftrightarrow> (\<exists>j. i \<le> j \<and> j \<le> stationsCount room \<and> claimed room j)"
proof (induction room i rule: inUse_loop.induct)
  case (1 room i)
  show ?case
  proof (cases "i \<le> stationsCount room")
    case False
    then show ?thesis by (subst inUse_loop.simps) auto
  next
    case le: True
    show ?thesis
    proof (cases "claimed room i")
      case True
      then have "inUse_loop room i"
        using le by (subst inUse_loop.simps) (auto simp: claimed_def split: option.splits)
      then show ?thesis using True le by auto
    next
      case False
      have "inUse_loop room i = inUse_loop room (i + 1)"
        using le False by (subst inUse_loop.simps) (auto simp: claimed_def split: option.splits)
      also have "\<dots> \<longleftrightarrow> (\<exists>j. i + 1 \<le> j \<and> j \<le> stationsCount room \<and> claimed room j)"
      proof (cases "stations room i")
        case None
        then show ?thesis using "1.IH"(1)[OF le None] by simp
      next
        case (Some s)
        then have "\<not> truthy_str (ownerClientId s)" using False by (simp add: claimed_def)
        then show ?thesis using "1.IH"(2)[OF le Some] by simp
      qed
      also have "\<dots> \<longleftrightarrow> (\<exists>j. i \<le> j \<and> j \<le> stationsCount room \<and> claimed room j)"
      proof
        assume "\<exists>j. i + 1 \<le> j \<and> j \<le> stationsCount room \<and> claimed room j"
        then obtain j where "i + 1 \<le> j" "j \<le> stationsCount room" "claimed room j" by blast
        moreover from this have "i \<le> j" by arith
        ultimately show "\<exists>j. i \<le> j \<and> j \<le> stationsCount room \<and> claimed room j" by blast
      next
        assume "\<exists>j. i \<le> j \<and> j \<le> stationsCount room \<and> claimed room j"
        then obtain j where j: "i \<le> j" "j \<le> stationsCount room" "claimed room j" by blast
        then have "j \<noteq> i" using False by blast
        then have "i + 1 \<le> j" using j(1) by arith
        then show "\<exists>j. i + 1 \<le> j \<and> j \<le> stationsCount room \<and> claimed room j"
          using j by blast
      qed
      finally show ?thesis .
    qed
  qed
qed

lemma delete_loop_apply:
  "delete_loop m i hi j = (if i \<le> j \<and> j \<le> hi then None else m j)"
proof (induction m i hi rule: delete_loop.induct)
  case (1 m i hi)
  show ?case
  proof (cases "i \<le> hi")
    case True
    have "delete_loop m i hi j = delete_loop (m(i := None)) (i + 1) hi j"
      using True by (subst delete_loop.simps) simp
    also have "\<dots> = (if i + 1 \<le> j \<and> j \<le> hi then None else (m(i := None)) j)"
      using "1.IH"[OF True] .
    also have "\<dots> = (if i \<le> j \<and> j \<le> hi then None else m j)"
      using True by auto
    finally show ?thesis .
  next
    case False
    then show ?thesis by (subst delete_loop.simps) auto
  qed
qed

lemma fill_loop_apply:
  "fill_loop m i hi j =
     (if i \<le> j \<and> j \<le> hi \<and> m j = None then Some (fresh_slot j) else m j)"
proof (induction m i hi rule: fill_loop.induct)
  case (1 m i hi)
  let ?m' = "case m i of None \<Rightarrow> m(i \<mapsto> fresh_slot i) | Some s \<Rightarrow> m"
  show ?case
  proof (cases "i \<le> hi")
    case True
    have "fill_loop m i hi j = fill_loop ?m' (i + 1) hi j"
      using True by (subst fill_loop.simps) simp
    also have "\<dots> = (if i + 1 \<le> j \<and> j \<le> hi \<and> ?m' j = None
                        then Some (fresh_slot j) else ?m' j)"
      using "1.IH"[OF True] .
    also have "\<dots> = (if i \<le> j \<and> j \<le> hi \<and> m j = None then Some (fresh_slot j) else m j)"
      using True by (auto split: option.splits)
    finally show ?thesis .
  next
    case False
    then show ?thesis by (subst fill_loop.simps) auto
  qed
qed

text \<open>C6. \<open>updateConfig\<close> throws \<open>E_BAD_STATE\<close> in every room that is not WAITING. In a
  WAITING room it throws \<open>E_STATIONS_IN_USE\<close> whenever some slot above the new count, up to the
  old one, has a non-empty owner, and succeeds otherwise; both throws leave the room as it
  was. In particular, reducing the count to the highest claimed index \<open>n\<close> succeeds: the count
  and the duration are the new ones and slot \<open>n\<close> is kept with its owner.\<close>

theorem updateConfig_guards:
  "(state room \<noteq> WAITING \<longrightarrow> updateConfig room n d = (Some E_BAD_STATE, room)) \<and>
   (state room = WAITING \<and> (\<exists>j. n < j \<and> j \<le> stationsCount room \<and> claimed room j) \<longrightarrow>
      updateConfig room n d = (Some E_STATIONS_IN_USE, room)) \<and>
   (state room = WAITING \<and> n \<le> stationsCount room \<and> claimed room n \<and>
    (\<forall>j. n < j \<and> j \<le> stationsCount room \<longrightarrow> \<not> claimed room j) \<longrightarrow>
      fst (updateConfig room n d) = None \<and>
      stationsCount (snd (updateConfig room n d)) = n \<and>
      roundDurationSec (snd (updateConfig room n d)) = d \<and>
      stations (snd (updateConfig room n d)) n = stations room n)"
proof -
  have iff: "inUse_loop room (n + 1) \<longleftrightarrow>
      (\<exists>j. n < j \<and> j \<le> stationsCount room \<and> claimed room j)"
    by (simp add: inUse_loop_iff) (metis add1_zle_eq)
  have keep: "claimed room n \<Longrightarrow>
      fill_loop (delete_loop (stations room) (n + 1) 200) 1 n n = stations room n"
    by (auto simp: fill_loop_apply delete_loop_apply claimed_def split: option.splits)
  show ?thesis
    using iff keep by (auto simp: updateConfig_def)
qed

text \<open>The repository's test "update config guard": station 1 claimed alone, the count goes
  down to 1; with station 2 claimed as well, it does not. A started round refuses.\<close>

theorem updateConfig_guards_witness:
  "state room_started \<noteq> WAITING \<and>
   updateConfig room_started 1 60 = (Some E_BAD_STATE, room_started) \<and>
   state room_both_ready = WAITING \<and> claimed room_both_ready 2 \<and>
   updateConfig room_both_ready 1 60 = (Some E_STATIONS_IN_USE, room_both_ready) \<and>
   state room_slot2_free = WAITING \<and> claimed room_slot2_free 1 \<and>
   \<not> claimed room_slot2_free 2 \<and>
   fst (updateConfig room_slot2_free 1 60) = None \<and>
   stationsCount (snd (updateConfig room_slot2_free 1 60)) = 1 \<and>
   roundDurationSec (snd (updateConfig room_slot2_free 1 60)) = 60"
proof -
  have a: "state room_started \<noteq> WAITING"
    by (simp add: room_started_def)
  have b: "state room_both_ready = WAITING" "claimed room_both_ready 2"
      "(1::int) < 2 \<and> 2 \<le> stationsCount room_both_ready"
    by (simp_all add: room_both_ready_def claimed_def slot_of_def truthy_str_def)
  have c: "state room_slot2_free = WAITING" "claimed room_slot2_free 1"
      "\<not> claimed room_slot2_free 2" "1 \<le> stationsCount room_slot2_free"
    by (simp_all add: room_slot2_free_def room_both_ready_def claimed_def slot_of_def
        truthy_str_def)
  have c': "\<forall>j. 1 < j \<and> j \<le> stationsCount room_slot2_free \<longrightarrow> \<not> claimed room_slot2_free j"
  proof (intro allI impI)
    fix j :: int assume "1 < j \<and> j \<le> stationsCount room_slot2_free"
    then have "j = 2" by (simp add: room_slot2_free_def room_both_ready_def)
    then show "\<not> claimed room_slot2_free j" using c(3) by simp
  qed
  show ?thesis
    using updateConfig_guards[of room_started 1 60] updateConfig_guards[of room_both_ready 1 60]
      updateConfig_guards[of room_slot2_free 1 60] a b c c'
    by blast
qed

subsection \<open>Tail compaction\<close>

lemma tail_scan_all_vacant:
  "0 \<le> n \<Longrightarrow> (\<forall>j s. 1 \<le> j \<and> j \<le> n \<and> stations room j = Some s \<longrightarrow> vacant s)
     \<Longrightarrow> tail_scan room n = 0"
proof (induction room n rule: tail_scan.induct)
  case (1 room n)
  show ?case
  proof (cases "n > 0")
    case False
    then show ?thesis using "1.prems"(1) by (subst tail_scan.simps) simp
  next
    case True
    have rest: "\<forall>j s. 1 \<le> j \<and> j \<le> n - 1 \<and> stations room j = Some s \<longrightarrow> vacant s"
    proof (intro allI impI)
      fix j s assume h: "1 \<le> j \<and> j \<le> n - 1 \<and> stations room j = Some s"
      then have "1 \<le> j \<and> j \<le> n \<and> stations room j = Some s" by arith
      then show "vacant s" using "1.prems"(2) by blast
    qed
    show ?thesis
    proof (cases "stations room n")
      case None
      have "tail_scan room n = tail_scan room (n - 1)"
        using True None by (subst tail_scan.simps) simp
      then show ?thesis using "1.IH"(1)[OF True None _ rest] True by simp
    next
      case (Some s)
      then have "1 \<le> n \<and> n \<le> n \<and> stations room n = Some s" using True by simp
      then have v: "vacant s" using "1.prems"(2) by blast
      then have nb: "\<not> (truthy_str (ownerClientId s) \<or> ready s \<or> connected s)"
        by (simp add: vacant_def)
      have "tail_scan room n = tail_scan room (n - 1)"
        using True Some nb by (subst tail_scan.simps) simp
      then show ?thesis using "1.IH"(2)[OF True Some nb _ rest] True by simp
    qed
  qed
qed

lemma createRoom_2_65: "createRoom ''ROOM1'' ''central-1'' 2 65 = room_fresh"
  by (simp add: createRoom_def room_fresh_def room_both_ready_def makeStations_def
      makeStations_loop.simps)

lemma tailCompact_all_vacant:
  assumes "state room = WAITING" and "0 \<le> stationsCount room"
    and "dom (stations room) = {1 .. stationsCount room}"
    and "\<forall>j s. stations room j = Some s \<longrightarrow> vacant s"
  shows "tailCompactIfWaiting room = room\<lparr>stations := Map.empty, stationsCount := 0\<rparr>"
proof -
  have scan: "tail_scan room (stationsCount room) = 0"
    using assms(2,4) by (intro tail_scan_all_vacant) auto
  have outside: "stations room j = None" if "\<not> (1 \<le> j \<and> j \<le> stationsCount room)" for j
  proof -
    have "j \<notin> dom (stations room)" using that assms(3) by simp
    then show ?thesis by blast
  qed
  show ?thesis
  proof (cases "stationsCount room = 0")
    case True
    then have "stations room = Map.empty" using outside by auto
    then show ?thesis using True scan assms(1) by (simp add: tailCompactIfWaiting_def)
  next
    case False
    then have pos: "0 < stationsCount room" using assms(2) by simp
    have "delete_loop (stations room) 1 (stationsCount room) = Map.empty"
    proof
      fix j show "delete_loop (stations room) 1 (stationsCount room) j = None"
        using outside[of j] by (simp add: delete_loop_apply)
    qed
    then show ?thesis using pos scan assms(1) by (simp add: tailCompactIfWaiting_def)
  qed
qed

lemma allClaimedAndReady_no_stations:
  "stationsCount room = 0 \<Longrightarrow> allClaimedAndReady room"
  unfolding allClaimedAndReady_def by (subst allClaimedAndReady_loop.simps) simp

text \<open>C9. Tail compaction of a WAITING room in which every slot is unclaimed, not ready and
  not connected leaves no station: \<open>stationsCount\<close> is 0 and the stations map is empty. There
  \<open>allClaimedAndReady\<close> holds, its loop over \<open>1..0\<close> being empty, and \<open>startRound\<close> succeeds:
  the room is RUNNING with no stations.\<close>

theorem tailCompact_empties_then_starts:
  assumes "state room = WAITING" and "0 \<le> stationsCount room"
    and "dom (stations room) = {1 .. stationsCount room}"
    and "\<forall>j s. stations room j = Some s \<longrightarrow> vacant s"
  shows "stationsCount (tailCompactIfWaiting room) = 0 \<and>
         stations (tailCompactIfWaiting room) = Map.empty \<and>
         allClaimedAndReady (tailCompactIfWaiting room) \<and>
         (\<exists>r. startRound now (tailCompactIfWaiting room) = (None, r) \<and>
              state r = RUNNING \<and> stationsCount r = 0 \<and> stations r = Map.empty)"
proof -
  let ?r = "tailCompactIfWaiting room"
  have eq: "?r = room\<lparr>stations := Map.empty, stationsCount := 0\<rparr>"
    using assms by (rule tailCompact_all_vacant)
  then have a: "stationsCount ?r = 0" "stations ?r = Map.empty" "state ?r = WAITING"
    using assms(1) by simp_all
  have b: "allClaimedAndReady ?r"
    using a(1) by (rule allClaimedAndReady_no_stations)
  show ?thesis using a b by (simp add: startRound_def)
qed

lemma room_fresh_dom: "dom (stations room_fresh) = {1 .. stationsCount room_fresh}"
  by (auto simp: room_fresh_def room_both_ready_def)

theorem tailCompact_empties_then_starts_witness:
  "state room_fresh = WAITING \<and> stationsCount room_fresh = 2 \<and>
   dom (stations room_fresh) = {1 .. stationsCount room_fresh} \<and>
   stationsCount (tailCompactIfWaiting room_fresh) = 0 \<and>
   stations (tailCompactIfWaiting room_fresh) = Map.empty \<and>
   (\<exists>r. startRound 1000 (tailCompactIfWaiting room_fresh) = (None, r) \<and> state r = RUNNING)"
proof -
  have h: "state room_fresh = WAITING" "0 \<le> stationsCount room_fresh"
      "stationsCount room_fresh = 2"
    by (simp_all add: room_fresh_def room_both_ready_def)
  have v: "\<forall>j s. stations room_fresh j = Some s \<longrightarrow> vacant s"
    by (auto simp: room_fresh_def vacant_def fresh_slot_def truthy_str_def split: if_splits)
  show ?thesis
    using tailCompact_empties_then_starts[OF h(1) h(2) room_fresh_dom v, of 1000] h room_fresh_dom
    by blast
qed

subsection \<open>claimStation\<close>



lemma claimStation_taken:
  assumes "1 \<le> sid" and "sid \<le> stationsCount room" and "stations room sid = Some slot"
    and "ownerClientId slot = Some other" and "other \<noteq> []" and "other \<noteq> cid"
  shows "claimStation room cid sid = (Some E_STATION_TAKEN, room)"
  using assms by (simp add: claimStation_def truthy_str_def)

lemma claimStation_releases_previous:
  assumes "claimStation room cid sid = (None, r)"
    and "bindings room cid = Some p" and "p \<noteq> sid" and "p \<noteq> 0"
    and "stations room p = Some q"
  shows "stations r p = Some (release q) \<and> bindings r cid = Some sid \<and>
         (\<exists>slot. stations room sid = Some slot \<and>
            stations r sid = Some (slot\<lparr>ownerClientId := Some cid, connected := True\<rparr>))"
  using assms
  by (auto simp: claimStation_def truthy_num_def Let_def split: if_splits option.splits)

lemma claimStation_owns_one:
  assumes "room_inv room" and "claimStation room cid sid = (None, r)"
    and "stations r j = Some s" and "ownerClientId s = Some cid"
  shows "j = sid"
proof (rule ccontr)
  assume ne: "j \<noteq> sid"
  obtain slot where slot: "stations room sid = Some slot"
    using assms(2) by (auto simp: claimStation_def split: if_splits option.splits)
  show False
  proof (cases "bindings room cid = Some j")
    case True
    then obtain q where q: "stations room j = Some q"
      using assms(1) by (auto simp: room_inv_def)
    then have "j \<in> {1 .. stationsCount room}" using assms(1) by (auto simp: room_inv_def)
    then have "j \<noteq> 0" by simp
    then have "stations r j = Some (release q)"
      using claimStation_releases_previous[OF assms(2) True ne _ q] by simp
    then show False using assms(3,4) by (simp add: release_def)
  next
    case False
    then have "stations r j = stations room j"
      using assms(2) ne
      by (auto simp: claimStation_def Let_def truthy_num_def split: if_splits option.splits)
    then have "stations room j = Some s" using assms(3) by simp
    then have "bindings room cid = Some j"
      using assms(1,4) unfolding room_inv_def by blast
    then show False using False by simp
  qed
qed

subsection \<open>The claim path of socket.ts\<close>

lemma int_1_2: "{1 .. 2 :: int} = {1, 2}"
  by auto

lemma room_inv_room_both_ready: "room_inv room_both_ready"
  unfolding room_inv_def
  by (auto simp: room_both_ready_def slot_of_def int_1_2 split: if_splits)

lemma room_inv_room_slot2_free: "room_inv room_slot2_free"
  unfolding room_inv_def
  by (auto simp: room_slot2_free_def room_both_ready_def slot_of_def int_1_2 split: if_splits)

lemma room_inv_room_started: "room_inv room_started"
  unfolding room_inv_def
  by (auto simp: room_started_def room_both_ready_def slot_of_def int_1_2 split: if_splits)

text \<open>C7, at the input where the code departs from it. \<open>client-a\<close> owns station 1 of a room
  that satisfies the invariant, station 2 is free, and the client claims station 2. Through
  \<open>claimStation\<close> station 1 is released and the client owns station 2 alone. Through the
  \<open>station:join\<close> handler, the claim path of socket.ts, the binding moves to station 2 while
  station 1 keeps the client as owner, ready and connected: the client owns two stations.\<close>

theorem station_join_keeps_previous_station:
  "room_inv room_slot2_free \<and>
   bindings room_slot2_free ''client-a'' = Some 1 \<and>
   claimStation room_slot2_free ''client-a'' 2 =
     (None, room_slot2_free\<lparr>stations := [1 \<mapsto> slot_of 1 None False False,
                                           2 \<mapsto> slot_of 2 (Some ''client-a'') False True],
                              bindings := [''client-a'' \<mapsto> 2]\<rparr>) \<and>
   station_join 1000 room_slot2_free ''client-a'' (Some 2) =
     (None, room_slot2_free\<lparr>stations := [1 \<mapsto> slot_of 1 (Some ''client-a'') True True,
                                           2 \<mapsto> slot_of 2 (Some ''client-a'') False True],
                              bindings := [''client-a'' \<mapsto> 2]\<rparr>)"
proof -
  have a: "bindings room_slot2_free ''client-a'' = Some 1"
    by (simp add: room_slot2_free_def)
  have b: "claimStation room_slot2_free ''client-a'' 2 =
     (None, room_slot2_free\<lparr>stations := [1 \<mapsto> slot_of 1 None False False,
                                           2 \<mapsto> slot_of 2 (Some ''client-a'') False True],
                              bindings := [''client-a'' \<mapsto> 2]\<rparr>)"
    by (simp add: claimStation_def room_slot2_free_def room_both_ready_def slot_of_def
        truthy_num_def truthy_str_def release_def Let_def)
  have c: "station_join 1000 room_slot2_free ''client-a'' (Some 2) =
     (None, room_slot2_free\<lparr>stations := [1 \<mapsto> slot_of 1 (Some ''client-a'') True True,
                                           2 \<mapsto> slot_of 2 (Some ''client-a'') False True],
                              bindings := [''client-a'' \<mapsto> 2]\<rparr>)"
    by (simp add: station_join_def room_slot2_free_def room_both_ready_def slot_of_def
        truthy_num_def truthy_str_def auto_start_def allClaimedAndReady_def
        allClaimedAndReady_loop.simps Let_def)
  show ?thesis using room_inv_room_slot2_free a b c by blast
qed

subsection \<open>The room invariant and the removal of a station\<close>

lemma central_removeStation_running:
  "central_removeStation room_started ''central-1'' 2 =
     (None, room_started\<lparr>stations := [1 \<mapsto> slot_of 1 (Some ''client-a'') True True,
                                        2 \<mapsto> slot_of 2 None False False],
                           pendingCompaction := True\<rparr>)"
  by (simp add: central_removeStation_def room_started_def room_both_ready_def slot_of_def
      release_def Let_def)

lemma central_removeStation_waiting:
  "central_removeStation room_both_ready ''central-1'' 1 =
     (None, room_both_ready\<lparr>stations := [1 \<mapsto> slot_of 1 (Some ''client-b'') True True],
                              bindings := [''client-a'' \<mapsto> 1, ''client-b'' \<mapsto> 1],
                              stationsCount := 1\<rparr>)"
  by (simp add: central_removeStation_def renumberCompactIfWaiting_def room_both_ready_def
      slot_of_def release_def Let_def renumber_loop.simps truthy_str_def)

text \<open>C1, at the inputs where the code departs from it. Both rooms satisfy the invariant.
  In the RUNNING room the controller removes station 2: the slot is cleared but
  \<open>client-b\<close> stays bound to it. In the WAITING room the controller removes station 1:
  \<open>client-b\<close> moves down to station 1 and \<open>client-a\<close>, whose slot was cleared, stays bound to
  station 1 as well. Either way the room no longer satisfies the invariant.\<close>

theorem central_removeStation_breaks_room_inv:
  "room_inv room_started \<and>
   fst (central_removeStation room_started ''central-1'' 2) = None \<and>
   \<not> room_inv (snd (central_removeStation room_started ''central-1'' 2)) \<and>
   room_inv room_both_ready \<and>
   fst (central_removeStation room_both_ready ''central-1'' 1) = None \<and>
   \<not> room_inv (snd (central_removeStation room_both_ready ''central-1'' 1))"
proof -
  let ?r1 = "snd (central_removeStation room_started ''central-1'' 2)"
  let ?r2 = "snd (central_removeStation room_both_ready ''central-1'' 1)"
  have "bindings ?r1 ''client-b'' = Some 2"
    by (simp add: central_removeStation_running) (simp add: room_started_def room_both_ready_def)
  moreover have "\<not> (\<exists>slot. stations ?r1 2 = Some slot \<and> ownerClientId slot = Some ''client-b'')"
    by (simp add: central_removeStation_running slot_of_def)
  ultimately have n1: "\<not> room_inv ?r1"
    unfolding room_inv_def by blast
  have "bindings ?r2 ''client-a'' = Some 1"
    by (simp add: central_removeStation_waiting)
  moreover have "\<not> (\<exists>slot. stations ?r2 1 = Some slot \<and> ownerClientId slot = Some ''client-a'')"
    by (simp add: central_removeStation_waiting slot_of_def)
  ultimately have n2: "\<not> room_inv ?r2"
    unfolding room_inv_def by blast
  show ?thesis
    using n1 n2 room_inv_room_started room_inv_room_both_ready
    by (simp add: central_removeStation_running central_removeStation_waiting)
qed

subsection \<open>resetToWaiting\<close>

lemma tailCompact_fields:
  "state (tailCompactIfWaiting r) = state r \<and>
   startedAt (tailCompactIfWaiting r) = startedAt r \<and>
   timeLeft (tailCompactIfWaiting r) = timeLeft r \<and>
   warned30 (tailCompactIfWaiting r) = warned30 r \<and>
   warned60 (tailCompactIfWaiting r) = warned60 r \<and>
   interval (tailCompactIfWaiting r) = interval r \<and>
   pendingCompaction (tailCompactIfWaiting r) = pendingCompaction r \<and>
   bindings (tailCompactIfWaiting r) = bindings r"
  by (simp add: tailCompactIfWaiting_def Let_def)

lemma tailCompact_stations:
  "stations (tailCompactIfWaiting r) j = Some s \<Longrightarrow> stations r j = Some s"
  by (auto simp: tailCompactIfWaiting_def Let_def delete_loop_apply split: if_splits)

lemma maybeApply_fields:
  "state (maybeApplyPendingCompaction r) = state r \<and>
   startedAt (maybeApplyPendingCompaction r) = startedAt r \<and>
   timeLeft (maybeApplyPendingCompaction r) = timeLeft r \<and>
   warned30 (maybeApplyPendingCompaction r) = warned30 r \<and>
   warned60 (maybeApplyPendingCompaction r) = warned60 r \<and>
   interval (maybeApplyPendingCompaction r) = interval r \<and>
   (state r = WAITING \<longrightarrow> \<not> pendingCompaction (maybeApplyPendingCompaction r))"
  by (simp add: maybeApplyPendingCompaction_def tailCompact_fields)

lemma maybeApply_stations:
  "stations (maybeApplyPendingCompaction r) j = Some s \<Longrightarrow> stations r j = Some s"
  by (auto simp: maybeApplyPendingCompaction_def dest: tailCompact_stations split: if_splits)

lemma resetToWaiting_not_ready:
  assumes "stations (resetToWaiting room) j = Some s"
  shows "\<not> ready s"
proof -
  have "map_option (\<lambda>s. s\<lparr>ready := False\<rparr>) (stations room j) = Some s"
    using maybeApply_stations[OF assms[unfolded resetToWaiting_def]] by simp
  then show ?thesis by auto
qed

lemma resetToWaiting_fields:
  "state (resetToWaiting room) = WAITING \<and> startedAt (resetToWaiting room) = None \<and>
   timeLeft (resetToWaiting room) = None \<and> \<not> warned30 (resetToWaiting room) \<and>
   \<not> warned60 (resetToWaiting room) \<and> \<not> pendingCompaction (resetToWaiting room) \<and>
   interval (resetToWaiting room) = interval room"
  by (simp add: resetToWaiting_def maybeApply_fields)

lemma resetToWaiting_idem: "resetToWaiting (resetToWaiting room) = resetToWaiting room"
proof -
  let ?R = "resetToWaiting room"
  have f: "state ?R = WAITING" "startedAt ?R = None" "timeLeft ?R = None"
      "\<not> warned30 ?R" "\<not> warned60 ?R" "\<not> pendingCompaction ?R"
    by (simp_all add: resetToWaiting_fields)
  have st: "(\<lambda>i. map_option (\<lambda>s. s\<lparr>ready := False\<rparr>) (stations ?R i)) = stations ?R"
  proof
    fix i show "map_option (\<lambda>s. s\<lparr>ready := False\<rparr>) (stations ?R i) = stations ?R i"
    proof (cases "stations ?R i")
      case None
      then show ?thesis by simp
    next
      case (Some s)
      then have "\<not> ready s" by (rule resetToWaiting_not_ready)
      then have "s\<lparr>ready := False\<rparr> = s" by simp
      then show ?thesis using Some by simp
    qed
  qed
  have "resetToWaiting ?R =
      maybeApplyPendingCompaction (?R\<lparr>stations := stations ?R, state := WAITING,
        startedAt := None, timeLeft := None, warned30 := False, warned60 := False\<rparr>)"
    unfolding resetToWaiting_def[of ?R] st ..
  also have "?R\<lparr>stations := stations ?R, state := WAITING, startedAt := None,
      timeLeft := None, warned30 := False, warned60 := False\<rparr> = ?R"
    using f by simp
  also have "maybeApplyPendingCompaction ?R = ?R"
    using f by (simp add: maybeApplyPendingCompaction_def)
  finally show ?thesis .
qed

lemma interval_tick_TimeUp:
  assumes "TimeUp \<in> set (snd (interval_tick t room))"
  shows "\<not> interval (fst (interval_tick t room)) \<and> state (fst (interval_tick t room)) = WAITING"
proof -
  have ev: "snd (interval_tick t room) = snd (tick t room)"
    by (cases "tick t room") (simp add: interval_tick_def)
  then have up: "TimeUp \<in> set (snd (tick t room))" using assms by simp
  then have "\<not> interval (fst (tick t room))"
    by (auto simp: tick_def Let_def split: option.splits if_splits)
  moreover have "fst (interval_tick t room) = resetToWaiting (fst (tick t room))"
    using up by (cases "tick t room") (simp add: interval_tick_def)
  ultimately show ?thesis by (simp add: resetToWaiting_fields)
qed

text \<open>C8 as stated fails in one point: \<open>resetToWaiting\<close> does not cancel the round timer. A
  RUNNING room whose timer is installed still holds the timer handle after the call.\<close>

theorem resetToWaiting_keeps_timer:
  "state room_ticking = RUNNING \<and> interval room_ticking \<and>
   interval (resetToWaiting room_ticking)"
  by (simp add: resetToWaiting_fields) (simp add: room_ticking_def room_started_def)

text \<open>C8, amended. \<open>resetToWaiting\<close> has no guard and never throws. From any state it leaves
  the room WAITING with no slot ready, \<open>startedAt\<close> and \<open>timeLeft\<close> cleared, both warn
  latches cleared and no compaction pending: a pending one has been applied by
  \<open>tailCompactIfWaiting\<close>. A second call changes nothing. The timer handle is left as it
  was; it is the callers that cancel the timer before the call: the \<open>central:resetRoom\<close>
  handler, the tick that reaches zero, and \<open>central:skipRound\<close> through \<open>immediateEnd\<close>.\<close>

theorem resetToWaiting_effect:
  "state (resetToWaiting room) = WAITING \<and>
   (\<forall>j s. stations (resetToWaiting room) j = Some s \<longrightarrow> \<not> ready s) \<and>
   startedAt (resetToWaiting room) = None \<and> timeLeft (resetToWaiting room) = None \<and>
   \<not> warned30 (resetToWaiting room) \<and> \<not> warned60 (resetToWaiting room) \<and>
   \<not> pendingCompaction (resetToWaiting room) \<and>
   (pendingCompaction room \<longrightarrow>
      resetToWaiting room =
        (tailCompactIfWaiting
           (room\<lparr>stations := (\<lambda>i. map_option (\<lambda>s. s\<lparr>ready := False\<rparr>) (stations room i)),
                  state := WAITING, startedAt := None, timeLeft := None,
                  warned30 := False, warned60 := False\<rparr>))\<lparr>pendingCompaction := False\<rparr>) \<and>
   resetToWaiting (resetToWaiting room) = resetToWaiting room \<and>
   interval (resetToWaiting room) = interval room \<and>
   (centralClientId room = cid \<longrightarrow>
      central_resetRoom room cid = (None, resetToWaiting (room\<lparr>interval := False\<rparr>)) \<and>
      \<not> interval (snd (central_resetRoom room cid))) \<and>
   (centralClientId room = cid \<and> state room = RUNNING \<longrightarrow>
      fst (central_skipRound room cid) = None \<and>
      state (snd (central_skipRound room cid)) = WAITING \<and>
      \<not> interval (snd (central_skipRound room cid))) \<and>
   (TimeUp \<in> set (snd (interval_tick t room)) \<longrightarrow>
      state (fst (interval_tick t room)) = WAITING \<and> \<not> interval (fst (interval_tick t room)))"
proof -
  have pend: "pendingCompaction room \<longrightarrow>
      resetToWaiting room =
        (tailCompactIfWaiting
           (room\<lparr>stations := (\<lambda>i. map_option (\<lambda>s. s\<lparr>ready := False\<rparr>) (stations room i)),
                  state := WAITING, startedAt := None, timeLeft := None,
                  warned30 := False, warned60 := False\<rparr>))\<lparr>pendingCompaction := False\<rparr>"
    by (simp add: resetToWaiting_def maybeApplyPendingCompaction_def)
  have rst: "centralClientId room = cid \<longrightarrow>
      central_resetRoom room cid = (None, resetToWaiting (room\<lparr>interval := False\<rparr>)) \<and>
      \<not> interval (snd (central_resetRoom room cid))"
    by (simp add: central_resetRoom_def resetToWaiting_fields)
  have skip: "centralClientId room = cid \<and> state room = RUNNING \<longrightarrow>
      fst (central_skipRound room cid) = None \<and>
      state (snd (central_skipRound room cid)) = WAITING \<and>
      \<not> interval (snd (central_skipRound room cid))"
    by (simp add: central_skipRound_def maybeApply_fields resetToWaiting_fields immediateEnd_def)
  show ?thesis
    using resetToWaiting_fields[of room] resetToWaiting_not_ready[of room]
      resetToWaiting_idem[of room] interval_tick_TimeUp[of t room] pend rst skip
    by blast
qed

lemma resetToWaiting_room_removed_running:
  "resetToWaiting room_removed_running =
     room_both_ready\<lparr>stations := [1 \<mapsto> slot_of 1 (Some ''client-a'') False True],
                      stationsCount := 1, interval := True\<rparr>"
  by (simp add: resetToWaiting_def maybeApplyPendingCompaction_def tailCompactIfWaiting_def
      room_removed_running_def room_ticking_def room_started_def room_both_ready_def
      slot_of_def tail_scan.simps delete_loop.simps truthy_str_def Let_def fun_eq_iff)

theorem resetToWaiting_effect_witness:
  "pendingCompaction room_removed_running \<and> state room_removed_running = RUNNING \<and>
   centralClientId room_removed_running = ''central-1'' \<and>
   state (resetToWaiting room_removed_running) = WAITING \<and>
   stationsCount (resetToWaiting room_removed_running) = 1 \<and>
   stations (resetToWaiting room_removed_running) =
     [1 \<mapsto> slot_of 1 (Some ''client-a'') False True] \<and>
   interval (resetToWaiting room_removed_running) \<and>
   \<not> interval (snd (central_resetRoom room_removed_running ''central-1'')) \<and>
   \<not> interval (snd (central_skipRound room_removed_running ''central-1'')) \<and>
   TimeUp \<in> set (snd (interval_tick 66000 room_removed_running)) \<and>
   state (fst (interval_tick 66000 room_removed_running)) = WAITING \<and>
   \<not> interval (fst (interval_tick 66000 room_removed_running))"
proof -
  have h: "pendingCompaction room_removed_running" "state room_removed_running = RUNNING"
      "centralClientId room_removed_running = ''central-1''" "interval room_removed_running"
    by (simp_all add: room_removed_running_def room_ticking_def room_started_def
        room_both_ready_def)
  have v: "stationsCount (resetToWaiting room_removed_running) = 1"
      "stations (resetToWaiting room_removed_running) =
         [1 \<mapsto> slot_of 1 (Some ''client-a'') False True]"
    by (simp_all add: resetToWaiting_room_removed_running)
  have "snd (tick 66000 room_removed_running) = [TimeUp]"
    by (simp add: tick_def room_removed_running_def room_ticking_def room_started_def
        room_both_ready_def Let_def)
  then have up: "TimeUp \<in> set (snd (interval_tick 66000 room_removed_running))"
    by (cases "tick 66000 room_removed_running") (simp add: interval_tick_def)
  have a: "state (resetToWaiting room_removed_running) = WAITING"
    using resetToWaiting_effect[of room_removed_running "''central-1''" 66000] by blast
  have b: "interval (resetToWaiting room_removed_running)"
    using resetToWaiting_effect[of room_removed_running "''central-1''" 66000] h(4) by blast
  have c: "\<not> interval (snd (central_resetRoom room_removed_running ''central-1''))"
    using resetToWaiting_effect[of room_removed_running "''central-1''" 66000] h(3) by blast
  have d: "\<not> interval (snd (central_skipRound room_removed_running ''central-1''))"
    using resetToWaiting_effect[of room_removed_running "''central-1''" 66000] h(2,3) by blast
  have e: "state (fst (interval_tick 66000 room_removed_running)) = WAITING \<and>
      \<not> interval (fst (interval_tick 66000 room_removed_running))"
    using resetToWaiting_effect[of room_removed_running "''central-1''" 66000] up by blast
  show ?thesis
    using a b c d e up h v by blast
qed

subsection \<open>Renumber compaction\<close>

lemma overwrite_all:
  "(d::StationSlot)\<lparr>slot_id := i, ownerClientId := ownerClientId src, connected := connected src,
      ready := ready src\<rparr> = (src::StationSlot)\<lparr>slot_id := i\<rparr>"
  by (rule StationSlot.equality) simp_all

lemma renumber_loop_step:
  "i < n \<Longrightarrow> renumber_loop i n st b acc =
     renumber_loop (i + 1) n (st(i \<mapsto> (src_at st i)\<lparr>slot_id := i\<rparr>))
       (if truthy_str (ownerClientId (src_at st i)) \<and>
           b (the (ownerClientId (src_at st i))) = Some (i + 1)
        then b(the (ownerClientId (src_at st i)) \<mapsto> i) else b)
       (if truthy_str (ownerClientId (src_at st i))
        then acc @ [(the (ownerClientId (src_at st i)), i + 1, i)] else acc)"
  by (subst renumber_loop.simps) (simp add: Let_def src_at_def overwrite_all)

lemma renumber_loop_stop:
  "\<not> i < n \<Longrightarrow> renumber_loop i n st b acc = (st, b, acc)"
  by (subst renumber_loop.simps) simp

lemma renumber_loop_stations:
  "fst (renumber_loop i n st b acc) j =
     (if i \<le> j \<and> j < n then Some ((src_at st j)\<lparr>slot_id := j\<rparr>) else st j)"
proof (induction "nat (n - i)" arbitrary: i st b acc)
  case 0
  then have "\<not> i < n" by simp
  then show ?case by (auto simp: renumber_loop_stop)
next
  case (Suc m)
  then have lt: "i < n" by simp
  have m: "m = nat (n - (i + 1))" using Suc.hyps(2) by simp
  let ?st = "st(i \<mapsto> (src_at st i)\<lparr>slot_id := i\<rparr>)"
  have src: "src_at ?st j = src_at st j" if "i + 1 \<le> j" for j
    using that by (simp add: src_at_def)
  show ?case
    unfolding renumber_loop_step[OF lt] Suc.hyps(1)[OF m]
    using lt src by auto
qed

lemma renumber_loop_bindings:
  "fst (snd (renumber_loop i n st b acc)) c =
     (case b c of
        None \<Rightarrow> None
      | Some j \<Rightarrow>
          if i < j \<and> j \<le> n \<and> c \<noteq> [] \<and> ownerClientId (src_at st (j - 1)) = Some c
          then Some (j - 1) else Some j)"
proof (induction "nat (n - i)" arbitrary: i st b acc)
  case 0
  then have "\<not> i < n" by simp
  then show ?case by (cases "b c") (auto simp: renumber_loop_stop)
next
  case (Suc m)
  then have lt: "i < n" by simp
  have m: "m = nat (n - (i + 1))" using Suc.hyps(2) by simp
  let ?st = "st(i \<mapsto> (src_at st i)\<lparr>slot_id := i\<rparr>)"
  let ?cid = "the (ownerClientId (src_at st i))"
  let ?moved = "truthy_str (ownerClientId (src_at st i)) \<and> b ?cid = Some (i + 1)"
  let ?b = "if ?moved then b(?cid \<mapsto> i) else b"
  have src: "src_at ?st (j - 1) = src_at st (j - 1)" if "i + 1 < j" for j
    using that by (simp add: src_at_def)
  have res: "fst (snd (renumber_loop i n st b acc)) c =
     (case ?b c of
        None \<Rightarrow> None
      | Some j \<Rightarrow>
          if i + 1 < j \<and> j \<le> n \<and> c \<noteq> [] \<and> ownerClientId (src_at ?st (j - 1)) = Some c
          then Some (j - 1) else Some j)"
    unfolding renumber_loop_step[OF lt] by (rule Suc.hyps(1)[OF m])
  show ?case
  proof (cases "?moved \<and> c = ?cid")
    case True
    then have own: "ownerClientId (src_at st i) = Some c" "c \<noteq> []" "b c = Some (i + 1)"
      by (auto simp: truthy_str_def split: option.splits)
    have "?b c = Some i" using True by simp
    then have "fst (snd (renumber_loop i n st b acc)) c = Some i"
      unfolding res by simp
    then show ?thesis using own lt by simp
  next
    case False
    then have same: "?b c = b c" by auto
    show ?thesis
    proof (cases "b c")
      case None
      then show ?thesis unfolding res same by simp
    next
      case (Some j)
      show ?thesis
      proof (cases "j = i + 1")
        case True
        have "\<not> (c \<noteq> [] \<and> ownerClientId (src_at st i) = Some c)"
          using False Some True by (auto simp: truthy_str_def)
        then show ?thesis unfolding res same using Some True by auto
      next
        case ne: False
        show ?thesis
        proof (cases "i + 1 < j")
          case True
          then show ?thesis unfolding res same using Some src[OF True] by simp
        next
          case False
          then have "\<not> i < j" using ne by simp
          then show ?thesis unfolding res same using Some False by simp
        qed
      qed
    qed
  qed
qed

lemma renumber_loop_remaps:
  "snd (snd (renumber_loop i n st b acc)) =
     acc @ map (\<lambda>j. (the (ownerClientId (src_at st j)), j + 1, j))
             (filter (\<lambda>j. truthy_str (ownerClientId (src_at st j))) [i .. n - 1])"
proof (induction "nat (n - i)" arbitrary: i st b acc)
  case 0
  then have "\<not> i < n" by simp
  then show ?case by (auto simp: renumber_loop_stop)
next
  case (Suc m)
  then have lt: "i < n" by simp
  have m: "m = nat (n - (i + 1))" using Suc.hyps(2) by simp
  let ?st = "st(i \<mapsto> (src_at st i)\<lparr>slot_id := i\<rparr>)"
  have src: "src_at ?st j = src_at st j" if "i + 1 \<le> j" for j
    using that by (simp add: src_at_def)
  have up: "[i .. n - 1] = i # [i + 1 .. n - 1]"
    using lt by (simp add: upto_rec1)
  have cong: "map (\<lambda>j. (the (ownerClientId (src_at ?st j)), j + 1, j))
             (filter (\<lambda>j. truthy_str (ownerClientId (src_at ?st j))) [i + 1 .. n - 1]) =
        map (\<lambda>j. (the (ownerClientId (src_at st j)), j + 1, j))
             (filter (\<lambda>j. truthy_str (ownerClientId (src_at st j))) [i + 1 .. n - 1])"
    using src by (intro map_cong filter_cong) auto
  show ?case
    unfolding renumber_loop_step[OF lt] Suc.hyps(1)[OF m] cong up
    by simp
qed

lemma renumberCompact_unfold:
  assumes "state room = WAITING" and "1 \<le> k" and "k \<le> stationsCount room"
  shows "renumberCompactIfWaiting room k =
     (let st0 = (case stations room k of
                     None \<Rightarrow> stations room
                   | Some removed \<Rightarrow> (stations room)(k \<mapsto> release removed));
          res = renumber_loop k (stationsCount room) st0 (bindings room) []
      in (room\<lparr>stations := (fst res)(stationsCount room := None), bindings := fst (snd res),
                stationsCount := max 0 (stationsCount room - 1)\<rparr>, snd (snd res)))"
  using assms by (simp add: renumberCompactIfWaiting_def Let_def split: prod.splits)

text \<open>Under the invariant, and with no client of the empty id, every client bound above the
  removed slot moves down and the owner of slot \<open>k + 1\<close> ends bound to \<open>k\<close>.\<close>

lemma renumberCompact_under_room_inv:
  assumes "state room = WAITING" and "room_inv room" and "bindings room [] = None"
    and "1 \<le> k" and "k \<le> stationsCount room"
  shows "stationsCount (fst (renumberCompactIfWaiting room k)) = stationsCount room - 1 \<and>
    (\<forall>i. k \<le> i \<and> i < stationsCount room \<longrightarrow>
        (\<exists>src. stations room (i + 1) = Some src \<and>
           stations (fst (renumberCompactIfWaiting room k)) i = Some (src\<lparr>slot_id := i\<rparr>))) \<and>
    (\<forall>i. i < k \<longrightarrow> stations (fst (renumberCompactIfWaiting room k)) i = stations room i) \<and>
    dom (stations (fst (renumberCompactIfWaiting room k))) = {1 .. stationsCount room - 1} \<and>
    (\<forall>c. bindings (fst (renumberCompactIfWaiting room k)) c =
        (case bindings room c of
           None \<Rightarrow> None
         | Some j \<Rightarrow> if k < j then Some (j - 1) else Some j)) \<and>
    (\<forall>sx X. stations room (k + 1) = Some sx \<and> ownerClientId sx = Some X \<longrightarrow>
        bindings (fst (renumberCompactIfWaiting room k)) X = Some k) \<and>
    snd (renumberCompactIfWaiting room k) =
      map (\<lambda>i. (the (ownerClientId (the (stations room (i + 1)))), i + 1, i))
          (filter (\<lambda>i. claimed room (i + 1)) [k .. stationsCount room - 1])"
proof -
  let ?n = "stationsCount room"
  let ?st0 = "case stations room k of
                     None \<Rightarrow> stations room
                   | Some removed \<Rightarrow> (stations room)(k \<mapsto> release removed)"
  let ?res = "renumber_loop k ?n ?st0 (bindings room) []"
  let ?r = "fst (renumberCompactIfWaiting room k)"
  have dom: "dom (stations room) = {1 .. ?n}"
    and bind: "\<And>c s. bindings room c = Some s \<longleftrightarrow>
            (\<exists>slot. stations room s = Some slot \<and> ownerClientId slot = Some c)"
    using assms(2) by (auto simp: room_inv_def)
  have st_r: "stations ?r = (fst ?res)(?n := None)"
    and b_r: "bindings ?r = fst (snd ?res)"
    and n_r: "stationsCount ?r = max 0 (?n - 1)"
    and ren: "snd (renumberCompactIfWaiting room k) = snd (snd ?res)"
    by (simp_all add: renumberCompact_unfold[OF assms(1,4,5)] Let_def)
  have st0_other: "?st0 j = stations room j" if "j \<noteq> k" for j
    using that by (simp split: option.splits)
  have inside: "\<exists>s. stations room j = Some s" if "1 \<le> j" "j \<le> ?n" for j
  proof -
    have "j \<in> dom (stations room)" using that dom by simp
    then show ?thesis by blast
  qed
  have outside: "stations room j = None" if "\<not> (1 \<le> j \<and> j \<le> ?n)" for j
  proof -
    have "j \<notin> dom (stations room)" using that dom by simp
    then show ?thesis by blast
  qed
  have next_slot: "\<exists>s. stations room (i + 1) = Some s" if "k \<le> i" "i < ?n" for i
  proof -
    have "1 \<le> i + 1" "i + 1 \<le> ?n" using that assms(4) by simp_all
    then show ?thesis by (rule inside)
  qed
  have src: "src_at ?st0 i = the (stations room (i + 1))" if ki: "k \<le> i" "i < ?n" for i
  proof -
    obtain s where "stations room (i + 1) = Some s"
      using next_slot[OF ki] by blast
    then show ?thesis using st0_other[of "i + 1"] ki by (simp add: src_at_def)
  qed
  have c1: "stationsCount ?r = ?n - 1"
    using n_r assms(4,5) by simp
  have c2: "\<forall>i. k \<le> i \<and> i < ?n \<longrightarrow>
        (\<exists>src. stations room (i + 1) = Some src \<and> stations ?r i = Some (src\<lparr>slot_id := i\<rparr>))"
  proof (intro allI impI)
    fix i assume h: "k \<le> i \<and> i < ?n"
    then obtain s where s: "stations room (i + 1) = Some s"
      using next_slot[of i] by blast
    have "stations ?r i = Some ((src_at ?st0 i)\<lparr>slot_id := i\<rparr>)"
      using h by (simp add: st_r renumber_loop_stations)
    then show "\<exists>src. stations room (i + 1) = Some src \<and> stations ?r i = Some (src\<lparr>slot_id := i\<rparr>)"
      using s src[of i] h by simp
  qed
  have c3: "\<forall>i. i < k \<longrightarrow> stations ?r i = stations room i"
    using assms(5) by (simp add: st_r renumber_loop_stations st0_other)
  have c4: "dom (stations ?r) = {1 .. ?n - 1}"
  proof (rule set_eqI)
    fix j
    show "j \<in> dom (stations ?r) \<longleftrightarrow> j \<in> {1 .. ?n - 1}"
    proof (cases "k \<le> j \<and> j < ?n")
      case True
      then show ?thesis using c2 assms(4) by auto
    next
      case False
      show ?thesis
      proof (cases "j < k")
        case True
        then have "stations ?r j = stations room j" using c3 by simp
        then show ?thesis using True assms(5) inside[of j] outside[of j] by (cases "1 \<le> j") auto
      next
        case ge: False
        then have "?n \<le> j" using False by simp
        have "stations ?r j = None"
        proof (cases "j = ?n")
          case True
          then show ?thesis by (simp add: st_r)
        next
          case False
          then have far: "?n < j" using \<open>?n \<le> j\<close> by simp
          then have "j \<noteq> k" using assms(5) by simp
          then have "?st0 j = stations room j" by (rule st0_other)
          moreover have "stations room j = None" using far outside[of j] by simp
          ultimately show ?thesis using far False by (simp add: st_r renumber_loop_stations)
        qed
        then show ?thesis using \<open>?n \<le> j\<close> by auto
      qed
    qed
  qed
  have c5: "\<forall>c. bindings ?r c =
        (case bindings room c of None \<Rightarrow> None | Some j \<Rightarrow> if k < j then Some (j - 1) else Some j)"
  proof
    fix c
    show "bindings ?r c =
        (case bindings room c of None \<Rightarrow> None | Some j \<Rightarrow> if k < j then Some (j - 1) else Some j)"
    proof (cases "bindings room c")
      case None
      then show ?thesis by (simp add: b_r renumber_loop_bindings)
    next
      case (Some j)
      then obtain slot where slot: "stations room j = Some slot" "ownerClientId slot = Some c"
        using bind by blast
      then have jr: "1 \<le> j" "j \<le> ?n" using outside[of j] by auto
      have ne: "c \<noteq> []" using Some assms(3) by auto
      show ?thesis
      proof (cases "k < j")
        case True
        then have "src_at ?st0 (j - 1) = slot"
          using src[of "j - 1"] jr slot by simp
        then show ?thesis using True Some jr ne slot by (simp add: b_r renumber_loop_bindings)
      next
        case False
        then show ?thesis using Some by (simp add: b_r renumber_loop_bindings)
      qed
    qed
  qed
  have c6: "\<forall>sx X. stations room (k + 1) = Some sx \<and> ownerClientId sx = Some X \<longrightarrow>
        bindings ?r X = Some k"
  proof (intro allI impI)
    fix sx X assume "stations room (k + 1) = Some sx \<and> ownerClientId sx = Some X"
    then have "bindings room X = Some (k + 1)" using bind by blast
    then show "bindings ?r X = Some k" using c5 by simp
  qed
  have c7: "snd (renumberCompactIfWaiting room k) =
      map (\<lambda>i. (the (ownerClientId (the (stations room (i + 1)))), i + 1, i))
          (filter (\<lambda>i. claimed room (i + 1)) [k .. ?n - 1])"
  proof -
    have f: "filter (\<lambda>j. truthy_str (ownerClientId (src_at ?st0 j))) [k .. ?n - 1] =
          filter (\<lambda>i. claimed room (i + 1)) [k .. ?n - 1]"
    proof (rule filter_cong[OF refl])
      fix i assume "i \<in> set [k .. ?n - 1]"
      then have h: "k \<le> i" "i < ?n" by auto
      then obtain s where "stations room (i + 1) = Some s"
        using next_slot[of i] by blast
      then show "truthy_str (ownerClientId (src_at ?st0 i)) = claimed room (i + 1)"
        using src[OF h] by (simp add: claimed_def)
    qed
    have "map (\<lambda>j. (the (ownerClientId (src_at ?st0 j)), j + 1, j))
             (filter (\<lambda>i. claimed room (i + 1)) [k .. ?n - 1]) =
          map (\<lambda>i. (the (ownerClientId (the (stations room (i + 1)))), i + 1, i))
             (filter (\<lambda>i. claimed room (i + 1)) [k .. ?n - 1])"
      using src by (intro map_cong) auto
    then show ?thesis by (simp add: ren renumber_loop_remaps f)
  qed
  show ?thesis using c1 c2 c3 c4 c5 c6 c7 by blast
qed

lemma int_1_3: "{1 .. 3 :: int} = {1, 2, 3}"
  by auto

lemma room_inv_room_three: "room_inv room_three"
  unfolding room_inv_def
  by (auto simp: room_three_def room_both_ready_def slot_of_def int_1_3 split: if_splits)

lemma renumberCompact_room_three:
  "renumberCompactIfWaiting room_three 1 =
     (room_three\<lparr>stations := [1 \<mapsto> slot_of 1 (Some ''client-b'') False True,
                                2 \<mapsto> slot_of 2 (Some ''client-c'') True False],
                   bindings := [''client-a'' \<mapsto> 1, ''client-b'' \<mapsto> 1, ''client-c'' \<mapsto> 2],
                   stationsCount := 2\<rparr>,
      [(''client-b'', 2, 1), (''client-c'', 3, 2)])"
  by (simp add: renumberCompactIfWaiting_def room_three_def room_both_ready_def slot_of_def
      release_def Let_def renumber_loop.simps truthy_str_def fun_eq_iff)

lemma station_join_twice:
  "station_join 1000
     (snd (station_join 1000 (createRoom ''ROOM1'' ''central-1'' 3 65) ''client-a'' (Some 2)))
     ''client-a'' (Some 3) = (None, room_joined_twice)"
  by (simp add: station_join_def createRoom_def makeStations_def makeStations_loop.simps
      room_joined_twice_def room_both_ready_def slot_of_def fresh_slot_def truthy_num_def
      truthy_str_def auto_start_def allClaimedAndReady_def allClaimedAndReady_loop.simps
      Let_def fun_eq_iff)

lemma renumberCompact_room_joined_twice:
  "renumberCompactIfWaiting room_joined_twice 1 =
     (room_joined_twice\<lparr>stations := [1 \<mapsto> slot_of 1 (Some ''client-a'') False True,
                                        2 \<mapsto> slot_of 2 (Some ''client-a'') False True],
                         bindings := [''client-a'' \<mapsto> 2], stationsCount := 2\<rparr>,
      [(''client-a'', 2, 1), (''client-a'', 3, 2)])"
  by (simp add: renumberCompactIfWaiting_def room_joined_twice_def room_both_ready_def
      slot_of_def fresh_slot_def release_def Let_def renumber_loop.simps truthy_str_def
      fun_eq_iff)

text \<open>C5 as stated fails in one point: owning slot \<open>k + 1\<close> is not enough for the binding to
  become \<open>k\<close>. The loop moves a binding only when it points at the slot being shifted
  (\<open>cur === oldId\<close>). In the room that two \<open>station:join\<close> calls of \<open>client-a\<close> produce, the
  client owns stations 2 and 3 and is bound to 3; when station 1 is removed the client's
  binding becomes 2, not 1.\<close>

theorem renumberCompact_owner_bound_elsewhere:
  "station_join 1000
     (snd (station_join 1000 (createRoom ''ROOM1'' ''central-1'' 3 65) ''client-a'' (Some 2)))
     ''client-a'' (Some 3) = (None, room_joined_twice) \<and>
   state room_joined_twice = WAITING \<and>
   stations room_joined_twice 2 = Some (slot_of 2 (Some ''client-a'') False True) \<and>
   bindings (fst (renumberCompactIfWaiting room_joined_twice 1)) ''client-a'' = Some 2 \<and>
   bindings (fst (renumberCompactIfWaiting room_joined_twice 1)) ''client-a'' \<noteq> Some 1"
proof -
  have "state room_joined_twice = WAITING"
    by (simp add: room_joined_twice_def room_both_ready_def)
  moreover have "stations room_joined_twice 2 = Some (slot_of 2 (Some ''client-a'') False True)"
    by (simp add: room_joined_twice_def)
  moreover have "bindings (fst (renumberCompactIfWaiting room_joined_twice 1)) ''client-a'' = Some 2"
    by (simp add: renumberCompact_room_joined_twice)
  ultimately show ?thesis using station_join_twice by simp
qed

text \<open>C5, amended. In any WAITING room, renumber compaction of a slot \<open>k\<close> in
  \<open>1..stationsCount\<close>: decrements \<open>stationsCount\<close> by exactly 1; puts at every position \<open>i\<close>
  from \<open>k\<close> below the old count the slot that was at \<open>i + 1\<close>, with its owner, ready and
  connected state and the id \<open>i\<close>; leaves every slot below \<open>k\<close> alone; deletes the top slot,
  so keys \<open>1..stationsCount\<close> become \<open>1..stationsCount - 1\<close>; moves a client's binding down by
  one exactly when it points above \<open>k\<close> at a slot that names the client as owner, and alters
  no other binding; so a client \<open>X\<close> that owns slot \<open>k + 1\<close> and is bound to it ends bound to
  \<open>k\<close>; and returns, in order, the remap \<open>(clientId, i + 1, i)\<close> of every claimed slot it
  moved. Nothing is assumed of the bindings: the room need not satisfy the invariant.\<close>

theorem renumberCompact_shifts_down:
  assumes "state room = WAITING" and "1 \<le> k" and "k \<le> stationsCount room"
  shows "stationsCount (fst (renumberCompactIfWaiting room k)) = stationsCount room - 1 \<and>
    (\<forall>i src. k \<le> i \<and> i < stationsCount room \<and> stations room (i + 1) = Some src \<longrightarrow>
        stations (fst (renumberCompactIfWaiting room k)) i = Some (src\<lparr>slot_id := i\<rparr>)) \<and>
    (\<forall>i. i < k \<or> stationsCount room < i \<longrightarrow>
        stations (fst (renumberCompactIfWaiting room k)) i = stations room i) \<and>
    stations (fst (renumberCompactIfWaiting room k)) (stationsCount room) = None \<and>
    (dom (stations room) = {1 .. stationsCount room} \<longrightarrow>
        dom (stations (fst (renumberCompactIfWaiting room k))) = {1 .. stationsCount room - 1}) \<and>
    (\<forall>c. bindings (fst (renumberCompactIfWaiting room k)) c =
        (case bindings room c of
           None \<Rightarrow> None
         | Some j \<Rightarrow> if k < j \<and> j \<le> stationsCount room \<and> owned_by room j c
                     then Some (j - 1) else Some j)) \<and>
    (\<forall>X. k < stationsCount room \<and> owned_by room (k + 1) X \<and> bindings room X = Some (k + 1) \<longrightarrow>
        bindings (fst (renumberCompactIfWaiting room k)) X = Some k) \<and>
    snd (renumberCompactIfWaiting room k) =
      map (\<lambda>i. (the (ownerClientId (the (stations room (i + 1)))), i + 1, i))
          (filter (\<lambda>i. claimed room (i + 1)) [k .. stationsCount room - 1])"
proof -
  let ?n = "stationsCount room"
  let ?st0 = "case stations room k of
                     None \<Rightarrow> stations room
                   | Some removed \<Rightarrow> (stations room)(k \<mapsto> release removed)"
  let ?res = "renumber_loop k ?n ?st0 (bindings room) []"
  let ?r = "fst (renumberCompactIfWaiting room k)"
  have st_r: "stations ?r = (fst ?res)(?n := None)"
    and b_r: "bindings ?r = fst (snd ?res)"
    and n_r: "stationsCount ?r = max 0 (?n - 1)"
    and ren: "snd (renumberCompactIfWaiting room k) = snd (snd ?res)"
    by (simp_all add: renumberCompact_unfold[OF assms] Let_def)
  have st0_other: "?st0 j = stations room j" if "j \<noteq> k" for j
    using that by (simp split: option.splits)
  have src: "src_at ?st0 i = src_at (stations room) i" if "k \<le> i" for i
    using that st0_other[of "i + 1"] by (simp add: src_at_def)
  have at: "stations ?r i = Some ((src_at (stations room) i)\<lparr>slot_id := i\<rparr>)"
    if ki: "k \<le> i" "i < ?n" for i
    using ki src[OF ki(1)] by (simp add: st_r renumber_loop_stations)
  have c1: "stationsCount ?r = ?n - 1"
    using n_r assms(2,3) by simp
  have c2: "\<forall>i src. k \<le> i \<and> i < ?n \<and> stations room (i + 1) = Some src \<longrightarrow>
        stations ?r i = Some (src\<lparr>slot_id := i\<rparr>)"
    using at by (simp add: src_at_def)
  have c4: "\<forall>i. i < k \<or> ?n < i \<longrightarrow> stations ?r i = stations room i"
  proof (intro allI impI)
    fix i assume h: "i < k \<or> ?n < i"
    then have ne: "i \<noteq> k" "i \<noteq> ?n" and out: "\<not> (k \<le> i \<and> i < ?n)"
      using assms(3) by auto
    have "fst ?res i = ?st0 i" using out by (simp only: renumber_loop_stations if_False)
    then show "stations ?r i = stations room i"
      using st0_other[OF ne(1)] ne(2) by (simp add: st_r)
  qed
  have c5: "stations ?r ?n = None" by (simp add: st_r)
  have c6: "dom (stations room) = {1 .. ?n} \<longrightarrow> dom (stations ?r) = {1 .. ?n - 1}"
  proof
    assume d: "dom (stations room) = {1 .. ?n}"
    have outside: "stations room j = None" if "\<not> (1 \<le> j \<and> j \<le> ?n)" for j
    proof -
      have "j \<notin> dom (stations room)" using that d by simp
      then show ?thesis by blast
    qed
    have inside: "stations room j \<noteq> None" if "1 \<le> j" "j \<le> ?n" for j
    proof -
      have "j \<in> dom (stations room)" using that d by simp
      then show ?thesis by blast
    qed
    show "dom (stations ?r) = {1 .. ?n - 1}"
    proof (rule set_eqI)
      fix j
      show "j \<in> dom (stations ?r) \<longleftrightarrow> j \<in> {1 .. ?n - 1}"
      proof (cases "k \<le> j \<and> j < ?n")
        case True
        then have "stations ?r j \<noteq> None" using at[of j] by simp
        then show ?thesis using True assms(2) by auto
      next
        case False
        show ?thesis
        proof (cases "j = ?n")
          case True
          then show ?thesis using c5 by auto
        next
          case ne: False
          then have "j < k \<or> ?n < j" using False by arith
          then have eq: "stations ?r j = stations room j" using c4 by blast
          show ?thesis
          proof (cases "1 \<le> j \<and> j \<le> ?n")
            case True
            then have "stations room j \<noteq> None" using inside[of j] by simp
            moreover have "j \<le> ?n - 1" using True ne by arith
            ultimately show ?thesis using eq True by auto
          next
            case out: False
            then have "stations room j = None" by (rule outside)
            then show ?thesis using eq out by auto
          qed
        qed
      qed
    qed
  qed
  have c7: "\<forall>c. bindings ?r c =
        (case bindings room c of
           None \<Rightarrow> None
         | Some j \<Rightarrow> if k < j \<and> j \<le> ?n \<and> owned_by room j c then Some (j - 1) else Some j)"
  proof
    fix c
    show "bindings ?r c =
        (case bindings room c of
           None \<Rightarrow> None
         | Some j \<Rightarrow> if k < j \<and> j \<le> ?n \<and> owned_by room j c then Some (j - 1) else Some j)"
    proof (cases "bindings room c")
      case None
      then show ?thesis by (simp add: b_r renumber_loop_bindings)
    next
      case (Some j)
      show ?thesis
      proof (cases "k < j")
        case True
        then have "src_at ?st0 (j - 1) = src_at (stations room) (j - 1)"
          using src[of "j - 1"] by simp
        moreover have "(c \<noteq> [] \<and> ownerClientId (src_at (stations room) (j - 1)) = Some c) =
            owned_by room j c"
          by (simp add: src_at_def owned_by_def fresh_slot_def split: option.splits)
        ultimately show ?thesis using True Some
          by (simp add: b_r renumber_loop_bindings)
      next
        case False
        then show ?thesis using Some by (simp add: b_r renumber_loop_bindings)
      qed
    qed
  qed
  have c8: "\<forall>X. k < ?n \<and> owned_by room (k + 1) X \<and> bindings room X = Some (k + 1) \<longrightarrow>
        bindings ?r X = Some k"
    using c7 by simp
  have c9: "snd (renumberCompactIfWaiting room k) =
      map (\<lambda>i. (the (ownerClientId (the (stations room (i + 1)))), i + 1, i))
          (filter (\<lambda>i. claimed room (i + 1)) [k .. ?n - 1])"
  proof -
    have f: "filter (\<lambda>j. truthy_str (ownerClientId (src_at ?st0 j))) [k .. ?n - 1] =
          filter (\<lambda>i. claimed room (i + 1)) [k .. ?n - 1]"
    proof (rule filter_cong[OF refl])
      fix i assume "i \<in> set [k .. ?n - 1]"
      then have h: "k \<le> i" by auto
      show "truthy_str (ownerClientId (src_at ?st0 i)) = claimed room (i + 1)"
        unfolding src[OF h]
        by (simp add: src_at_def claimed_def fresh_slot_def truthy_str_def split: option.splits)
    qed
    have "map (\<lambda>j. (the (ownerClientId (src_at ?st0 j)), j + 1, j))
             (filter (\<lambda>i. claimed room (i + 1)) [k .. ?n - 1]) =
          map (\<lambda>i. (the (ownerClientId (the (stations room (i + 1)))), i + 1, i))
             (filter (\<lambda>i. claimed room (i + 1)) [k .. ?n - 1])"
    proof (rule map_cong[OF refl])
      fix i assume "i \<in> set (filter (\<lambda>i. claimed room (i + 1)) [k .. ?n - 1])"
      then have h: "k \<le> i" "claimed room (i + 1)" by auto
      then obtain s where "stations room (i + 1) = Some s"
        by (auto simp: claimed_def split: option.splits)
      then show "(the (ownerClientId (src_at ?st0 i)), i + 1, i) =
          (the (ownerClientId (the (stations room (i + 1)))), i + 1, i)"
        unfolding src[OF h(1)] by (simp add: src_at_def)
    qed
    then show ?thesis by (simp add: ren renumber_loop_remaps f)
  qed
  show ?thesis using c1 c2 c4 c5 c6 c7 c8 c9 by blast
qed

lemma renumberCompact_room_three_less_one:
  "renumberCompactIfWaiting room_three_less_one 1 =
     (room_three_less_one\<lparr>stations := [1 \<mapsto> slot_of 1 (Some ''client-c'') True False],
         bindings := [''client-a'' \<mapsto> 1, ''client-b'' \<mapsto> 1, ''client-c'' \<mapsto> 1],
         stationsCount := 1\<rparr>,
      [(''client-c'', 2, 1)])"
  by (simp add: renumberCompactIfWaiting_def room_three_less_one_def room_three_def
      room_both_ready_def slot_of_def release_def Let_def renumber_loop.simps truthy_str_def
      fun_eq_iff)

lemma room_three_less_one_not_inv: "\<not> room_inv room_three_less_one"
proof -
  have "bindings room_three_less_one ''client-a'' = Some 1"
    by (simp add: room_three_less_one_def)
  moreover have "\<not> (\<exists>slot. stations room_three_less_one 1 = Some slot \<and>
      ownerClientId slot = Some ''client-a'')"
    by (simp add: room_three_less_one_def slot_of_def)
  ultimately show ?thesis unfolding room_inv_def by blast
qed

text \<open>Station 1 of the three is removed: \<open>client-b\<close> and \<open>client-c\<close> move down, the binding
  of \<open>client-a\<close> is not altered. The room that results does not satisfy the invariant, and
  station 1 is removed from it once more: \<open>client-c\<close> moves down again.\<close>

theorem renumberCompact_shifts_down_witness:
  "state room_three = WAITING \<and> dom (stations room_three) = {1 .. stationsCount room_three} \<and>
   owned_by room_three 2 ''client-b'' \<and> bindings room_three ''client-b'' = Some 2 \<and>
   fst (renumberCompactIfWaiting room_three 1) = room_three_less_one \<and>
   stationsCount room_three_less_one = 2 \<and>
   stations room_three_less_one 1 = Some (slot_of 1 (Some ''client-b'') False True) \<and>
   stations room_three_less_one 2 = Some (slot_of 2 (Some ''client-c'') True False) \<and>
   stations room_three_less_one 3 = None \<and>
   dom (stations room_three_less_one) = {1 .. 2} \<and>
   bindings room_three_less_one ''client-b'' = Some 1 \<and>
   bindings room_three_less_one ''client-c'' = Some 2 \<and>
   bindings room_three_less_one ''client-a'' = Some 1 \<and>
   snd (renumberCompactIfWaiting room_three 1) = [(''client-b'', 2, 1), (''client-c'', 3, 2)] \<and>
   \<not> room_inv room_three_less_one \<and> state room_three_less_one = WAITING \<and>
   stationsCount (fst (renumberCompactIfWaiting room_three_less_one 1)) = 1 \<and>
   stations (fst (renumberCompactIfWaiting room_three_less_one 1)) 1 =
     Some (slot_of 1 (Some ''client-c'') True False) \<and>
   bindings (fst (renumberCompactIfWaiting room_three_less_one 1)) ''client-c'' = Some 1 \<and>
   stations (fst (renumberCompactIfWaiting room_three 2)) 1 = stations room_three 1"
proof -
  have h: "state room_three = WAITING" "(1::int) \<le> 1" "1 \<le> stationsCount room_three"
      "(1::int) \<le> 2" "2 \<le> stationsCount room_three" "stationsCount room_three = 3"
    by (simp_all add: room_three_def room_both_ready_def)
  have d: "dom (stations room_three) = {1 .. stationsCount room_three}"
    using room_inv_room_three by (simp add: room_inv_def)
  have o: "owned_by room_three 2 ''client-b''" "bindings room_three ''client-b'' = Some 2"
    by (simp_all add: owned_by_def room_three_def slot_of_def)
  have eq: "fst (renumberCompactIfWaiting room_three 1) = room_three_less_one"
    by (simp add: renumberCompact_room_three room_three_less_one_def)
  note first = renumberCompact_shifts_down[OF h(1) h(2) h(3)]
  have n1: "stationsCount room_three_less_one = 2"
    using first h(6) unfolding eq by simp
  have d1: "dom (stations room_three_less_one) = {1 .. 2}"
    using first d h(6) unfolding eq by simp
  have b1: "bindings room_three_less_one ''client-b'' = Some 1"
  proof -
    have "(1::int) < stationsCount room_three \<and> owned_by room_three (1 + 1) ''client-b'' \<and>
        bindings room_three ''client-b'' = Some (1 + 1)"
      using h(6) o by simp
    then show ?thesis using first unfolding eq by blast
  qed
  have top: "stations room_three_less_one 3 = None"
    using first h(6) unfolding eq by simp
  have rest1: "stations room_three_less_one 1 = Some (slot_of 1 (Some ''client-b'') False True)"
      "stations room_three_less_one 2 = Some (slot_of 2 (Some ''client-c'') True False)"
      "bindings room_three_less_one ''client-c'' = Some 2"
      "bindings room_three_less_one ''client-a'' = Some 1"
      "snd (renumberCompactIfWaiting room_three 1) = [(''client-b'', 2, 1), (''client-c'', 3, 2)]"
    by (simp_all add: room_three_less_one_def renumberCompact_room_three)
  have h2: "state room_three_less_one = WAITING" "1 \<le> stationsCount room_three_less_one"
      "stationsCount room_three_less_one = 2"
      "owned_by room_three_less_one 2 ''client-c''"
      "bindings room_three_less_one ''client-c'' = Some 2"
    by (simp_all add: room_three_less_one_def room_three_def room_both_ready_def owned_by_def
        slot_of_def)
  note second = renumberCompact_shifts_down[OF h2(1) h(2) h2(2)]
  have n2: "stationsCount (fst (renumberCompactIfWaiting room_three_less_one 1)) = 1"
    using second h2(3) by simp
  have b2: "bindings (fst (renumberCompactIfWaiting room_three_less_one 1)) ''client-c'' = Some 1"
  proof -
    have "(1::int) < stationsCount room_three_less_one \<and>
        owned_by room_three_less_one (1 + 1) ''client-c'' \<and>
        bindings room_three_less_one ''client-c'' = Some (1 + 1)"
      using h2 by simp
    then show ?thesis using second by blast
  qed
  have s2: "stations (fst (renumberCompactIfWaiting room_three_less_one 1)) 1 =
      Some (slot_of 1 (Some ''client-c'') True False)"
    by (simp add: renumberCompact_room_three_less_one)
  have below: "stations (fst (renumberCompactIfWaiting room_three 2)) 1 = stations room_three 1"
  proof -
    have "(1::int) < 2 \<or> stationsCount room_three < 1" by simp
    then show ?thesis using renumberCompact_shifts_down[OF h(1) h(4) h(5)] by blast
  qed
  show ?thesis
    using h(1) d o eq n1 d1 b1 top rest1 room_three_less_one_not_inv h2(1) n2 b2 s2 below
    by simp
qed

subsection \<open>Operations that keep the room invariant\<close>

lemma room_invI:
  assumes "dom (stations r) = {1 .. stationsCount r}"
    and "\<And>c s. bindings r c = Some s \<Longrightarrow> \<exists>slot. stations r s = Some slot \<and> ownerClientId slot = Some c"
    and "\<And>c s slot. stations r s = Some slot \<Longrightarrow> ownerClientId slot = Some c \<Longrightarrow> bindings r c = Some s"
  shows "room_inv r"
  unfolding room_inv_def using assms by blast

lemma room_inv_dom: "room_inv r \<Longrightarrow> dom (stations r) = {1 .. stationsCount r}"
  by (simp add: room_inv_def)

lemma room_inv_bound:
  "room_inv r \<Longrightarrow> bindings r c = Some s \<Longrightarrow> \<exists>slot. stations r s = Some slot \<and> ownerClientId slot = Some c"
  by (simp add: room_inv_def)

lemma room_inv_owner:
  "room_inv r \<Longrightarrow> stations r s = Some slot \<Longrightarrow> ownerClientId slot = Some c \<Longrightarrow> bindings r c = Some s"
  unfolding room_inv_def by blast

lemma room_inv_range:
  "room_inv r \<Longrightarrow> stations r s = Some slot \<Longrightarrow> 1 \<le> s \<and> s \<le> stationsCount r"
proof -
  assume a: "room_inv r" "stations r s = Some slot"
  then have "s \<in> dom (stations r)" by blast
  then show ?thesis using room_inv_dom[OF a(1)] by simp
qed

text \<open>The round operations leave stations, bindings and the count alone.\<close>

lemma room_inv_cong:
  "stations r' = stations r \<Longrightarrow> bindings r' = bindings r \<Longrightarrow>
   stationsCount r' = stationsCount r \<Longrightarrow> room_inv r' = room_inv r"
  by (simp add: room_inv_def)

lemma room_inv_startRound: "room_inv r \<Longrightarrow> room_inv (snd (startRound now r))"
  by (simp add: startRound_def room_inv_def)

lemma room_inv_stopRound: "room_inv r \<Longrightarrow> room_inv (snd (stopRound now r))"
  by (simp add: stopRound_def room_inv_def)

lemma room_inv_resumeRound: "room_inv r \<Longrightarrow> room_inv (snd (resumeRound now r))"
  by (simp add: resumeRound_def room_inv_def Let_def)

lemma room_inv_tick: "room_inv r \<Longrightarrow> room_inv (fst (tick now r))"
  by (auto simp: tick_def room_inv_def Let_def split: option.splits)

lemma room_inv_setReady: 
  assumes "room_inv r" shows "room_inv (snd (setReady r cid rdy))"
proof (cases "truthy_num (bindings r cid)")
  case False
  then show ?thesis using assms by (simp add: setReady_def)
next
  case True
  then obtain sid where sid: "bindings r cid = Some sid" by (auto simp: truthy_num_def split: option.splits)
  then obtain slot where slot: "stations r sid = Some slot" using room_inv_bound[OF assms] by blast
  have eq: "snd (setReady r cid rdy) = r\<lparr>stations := (stations r)(sid \<mapsto> slot\<lparr>ready := rdy\<rparr>)\<rparr>"
    using True sid slot by (simp add: setReady_def)
  show ?thesis unfolding eq
  proof (rule room_invI)
    show "dom (stations (r\<lparr>stations := (stations r)(sid \<mapsto> slot\<lparr>ready := rdy\<rparr>)\<rparr>)) =
      {1 .. stationsCount (r\<lparr>stations := (stations r)(sid \<mapsto> slot\<lparr>ready := rdy\<rparr>)\<rparr>)}"
      using room_inv_dom[OF assms] slot by auto
  next
    fix c s assume "bindings (r\<lparr>stations := (stations r)(sid \<mapsto> slot\<lparr>ready := rdy\<rparr>)\<rparr>) c = Some s"
    then show "\<exists>sl. stations (r\<lparr>stations := (stations r)(sid \<mapsto> slot\<lparr>ready := rdy\<rparr>)\<rparr>) s = Some sl \<and> ownerClientId sl = Some c"
      using room_inv_bound[OF assms, of c s] slot by auto
  next
    fix c s sl assume "stations (r\<lparr>stations := (stations r)(sid \<mapsto> slot\<lparr>ready := rdy\<rparr>)\<rparr>) s = Some sl" "ownerClientId sl = Some c"
    then show "bindings (r\<lparr>stations := (stations r)(sid \<mapsto> slot\<lparr>ready := rdy\<rparr>)\<rparr>) c = Some s"
      using room_inv_owner[OF assms, of s _ c] slot by (auto split: if_splits)
  qed
qed


lemma room_inv_claimStation:
  assumes inv: "room_inv r" and ne: "bindings r [] = None" and cid: "cid \<noteq> []"
  shows "room_inv (snd (claimStation r cid sid)) \<and> bindings (snd (claimStation r cid sid)) [] = None"
proof (cases "fst (claimStation r cid sid) = None")
  case False
  then have "snd (claimStation r cid sid) = r"
    by (auto simp: claimStation_def Let_def split: if_splits option.splits)
  then show ?thesis using inv ne by simp
next
  case True
  then obtain slot where slot: "stations r sid = Some slot"
    and free: "\<not> (truthy_str (ownerClientId slot) \<and> ownerClientId slot \<noteq> Some cid)"
    by (auto simp: claimStation_def Let_def split: if_splits option.splits)
  have own: "ownerClientId slot = None \<or> ownerClientId slot = Some cid"
  proof (cases "ownerClientId slot")
    case None
    then show ?thesis by simp
  next
    case (Some c)
    then have "bindings r c = Some sid" using room_inv_owner[OF inv slot] by simp
    then have "c \<noteq> []" using ne by auto
    then show ?thesis using free Some by (simp add: truthy_str_def)
  qed
  let ?new = "slot\<lparr>ownerClientId := Some cid, connected := True\<rparr>"
  let ?rel = "truthy_num (bindings r cid) \<and> bindings r cid \<noteq> Some sid"
  show ?thesis
  proof (cases ?rel)
    case False
    have eq: "snd (claimStation r cid sid) =
        r\<lparr>stations := (stations r)(sid \<mapsto> ?new), bindings := (bindings r)(cid \<mapsto> sid)\<rparr>"
      using True slot free False
      by (auto simp: claimStation_def Let_def split: if_splits)
    have nob: "bindings r cid = None \<or> bindings r cid = Some sid"
    proof (cases "bindings r cid")
      case None then show ?thesis by simp
    next
      case (Some p)
      then obtain q where "stations r p = Some q" using room_inv_bound[OF inv] by blast
      then have "p \<noteq> 0" using room_inv_range[OF inv] by force
      then show ?thesis using False Some by (simp add: truthy_num_def)
    qed
    have "room_inv (r\<lparr>stations := (stations r)(sid \<mapsto> ?new), bindings := (bindings r)(cid \<mapsto> sid)\<rparr>)"
    proof (rule room_invI)
      show "dom (stations (r\<lparr>stations := (stations r)(sid \<mapsto> ?new), bindings := (bindings r)(cid \<mapsto> sid)\<rparr>)) =
        {1 .. stationsCount (r\<lparr>stations := (stations r)(sid \<mapsto> ?new), bindings := (bindings r)(cid \<mapsto> sid)\<rparr>)}"
        using room_inv_dom[OF inv] slot by auto
    next
      fix c s assume b: "bindings (r\<lparr>stations := (stations r)(sid \<mapsto> ?new), bindings := (bindings r)(cid \<mapsto> sid)\<rparr>) c = Some s"
      show "\<exists>sl. stations (r\<lparr>stations := (stations r)(sid \<mapsto> ?new), bindings := (bindings r)(cid \<mapsto> sid)\<rparr>) s = Some sl \<and> ownerClientId sl = Some c"
      proof (cases "c = cid")
        case True then show ?thesis using b by simp
      next
        case False
        then have "bindings r c = Some s" using b by simp
        then obtain sl where sl: "stations r s = Some sl" "ownerClientId sl = Some c"
          using room_inv_bound[OF inv] by blast
        then have "s \<noteq> sid" using own slot False by auto
        then show ?thesis using sl by simp
      qed
    next
      fix c s sl assume st: "stations (r\<lparr>stations := (stations r)(sid \<mapsto> ?new), bindings := (bindings r)(cid \<mapsto> sid)\<rparr>) s = Some sl"
        and o: "ownerClientId sl = Some c"
      show "bindings (r\<lparr>stations := (stations r)(sid \<mapsto> ?new), bindings := (bindings r)(cid \<mapsto> sid)\<rparr>) c = Some s"
      proof (cases "s = sid")
        case True then show ?thesis using st o by auto
      next
        case False
        then have "stations r s = Some sl" using st by simp
        then have bs: "bindings r c = Some s" using room_inv_owner[OF inv _ o] by simp
        then have "c \<noteq> cid" using nob False by auto
        then show ?thesis using bs by simp
      qed
    qed
    then show ?thesis unfolding eq using ne cid by simp
  next
    case rel: True
    then obtain p where p: "bindings r cid = Some p" "p \<noteq> sid"
      by (auto simp: truthy_num_def split: option.splits)
    then obtain q where q: "stations r p = Some q" "ownerClientId q = Some cid"
      using room_inv_bound[OF inv] by blast
    let ?st = "(stations r)(p \<mapsto> release q, sid \<mapsto> ?new)"
    have eq: "snd (claimStation r cid sid) = r\<lparr>stations := ?st, bindings := (bindings r)(cid \<mapsto> sid)\<rparr>"
      using True slot free rel p q
      by (auto simp: claimStation_def Let_def split: if_splits)
    have "room_inv (r\<lparr>stations := ?st, bindings := (bindings r)(cid \<mapsto> sid)\<rparr>)"
    proof (rule room_invI)
      show "dom (stations (r\<lparr>stations := ?st, bindings := (bindings r)(cid \<mapsto> sid)\<rparr>)) =
        {1 .. stationsCount (r\<lparr>stations := ?st, bindings := (bindings r)(cid \<mapsto> sid)\<rparr>)}"
        using room_inv_dom[OF inv] slot q by auto
    next
      fix c s assume b: "bindings (r\<lparr>stations := ?st, bindings := (bindings r)(cid \<mapsto> sid)\<rparr>) c = Some s"
      show "\<exists>sl. stations (r\<lparr>stations := ?st, bindings := (bindings r)(cid \<mapsto> sid)\<rparr>) s = Some sl \<and> ownerClientId sl = Some c"
      proof (cases "c = cid")
        case True then show ?thesis using b by simp
      next
        case False
        then have "bindings r c = Some s" using b by simp
        then obtain sl where sl: "stations r s = Some sl" "ownerClientId sl = Some c"
          using room_inv_bound[OF inv] by blast
        then have "s \<noteq> sid" "s \<noteq> p" using own slot q False by auto
        then show ?thesis using sl by simp
      qed
    next
      fix c s sl assume st: "stations (r\<lparr>stations := ?st, bindings := (bindings r)(cid \<mapsto> sid)\<rparr>) s = Some sl"
        and o: "ownerClientId sl = Some c"
      show "bindings (r\<lparr>stations := ?st, bindings := (bindings r)(cid \<mapsto> sid)\<rparr>) c = Some s"
      proof (cases "s = sid")
        case True then show ?thesis using st o by auto
      next
        case False
        then have "s \<noteq> p" using st o by (auto simp: release_def)
        then have "stations r s = Some sl" using st False by simp
        then have bs: "bindings r c = Some s" using room_inv_owner[OF inv _ o] by simp
        then have "c \<noteq> cid" using p \<open>s \<noteq> p\<close> by auto
        then show ?thesis using bs by simp
      qed
    qed
    then show ?thesis unfolding eq using ne cid by simp
  qed
qed


lemma tail_scan_le: "tail_scan room n \<le> n"
proof (induction room n rule: tail_scan.induct)
  case (1 room n)
  show ?case
  proof (cases "n > 0")
    case False
    then show ?thesis by (subst tail_scan.simps) simp
  next
    case True
    show ?thesis
    proof (cases "stations room n")
      case None
      then show ?thesis using "1.IH"(1)[OF True None] True by (subst tail_scan.simps) simp
    next
      case (Some s)
      show ?thesis
      proof (cases "truthy_str (ownerClientId s) \<or> ready s \<or> connected s")
        case busy: True
        then show ?thesis using True Some by (subst tail_scan.simps) simp
      next
        case False
        then show ?thesis using "1.IH"(2)[OF True Some False] True Some
          by (subst tail_scan.simps) simp
      qed
    qed
  qed
qed

lemma tail_scan_nonneg: "0 \<le> n \<Longrightarrow> 0 \<le> tail_scan room n"
proof (induction room n rule: tail_scan.induct)
  case (1 room n)
  show ?case
  proof (cases "n > 0")
    case False
    then show ?thesis using "1.prems" by (subst tail_scan.simps) simp
  next
    case True
    show ?thesis
    proof (cases "stations room n")
      case None
      then show ?thesis using "1.IH"(1)[OF True None] True by (subst tail_scan.simps) simp
    next
      case (Some s)
      show ?thesis
      proof (cases "truthy_str (ownerClientId s) \<or> ready s \<or> connected s")
        case busy: True
        then show ?thesis using True Some by (subst tail_scan.simps) simp
      next
        case False
        then show ?thesis using "1.IH"(2)[OF True Some False] True Some
          by (subst tail_scan.simps) simp
      qed
    qed
  qed
qed

lemma tail_scan_vacant:
  "tail_scan room n < j \<Longrightarrow> j \<le> n \<Longrightarrow> stations room j = Some s \<Longrightarrow> vacant s"
proof (induction room n rule: tail_scan.induct)
  case (1 room n)
  show ?case
  proof (cases "n > 0")
    case False
    then have "tail_scan room n = n" by (subst tail_scan.simps) simp
    then show ?thesis using "1.prems" by simp
  next
    case True
    show ?thesis
    proof (cases "stations room n")
      case None
      then have eq: "tail_scan room n = tail_scan room (n - 1)"
        using True by (subst tail_scan.simps) simp
      have "j \<noteq> n" using None "1.prems"(3) by auto
      then have "j \<le> n - 1" using "1.prems"(2) by simp
      then show ?thesis using "1.IH"(1)[OF True None _ _ "1.prems"(3)] "1.prems"(1) eq by simp
    next
      case (Some s')
      show ?thesis
      proof (cases "truthy_str (ownerClientId s') \<or> ready s' \<or> connected s'")
        case busy: True
        then have "tail_scan room n = n" using True Some by (subst tail_scan.simps) simp
        then show ?thesis using "1.prems" by simp
      next
        case False
        then have eq: "tail_scan room n = tail_scan room (n - 1)"
          using True Some by (subst tail_scan.simps) simp
        show ?thesis
        proof (cases "j = n")
          case True
          then show ?thesis using Some False "1.prems"(3) by (simp add: vacant_def)
        next
          case ne: False
          then have "j \<le> n - 1" using "1.prems"(2) by simp
          then show ?thesis
            using "1.IH"(2)[OF True Some False _ _ "1.prems"(3)] "1.prems"(1) eq by simp
        qed
      qed
    qed
  qed
qed

lemma room_inv_tailCompact:
  assumes inv: "room_inv r" and ne: "bindings r [] = None"
  shows "room_inv (tailCompactIfWaiting r)"
proof (cases "state r = WAITING \<and> tail_scan r (stationsCount r) < stationsCount r")
  case False
  then have "tailCompactIfWaiting r = r" by (auto simp: tailCompactIfWaiting_def Let_def)
  then show ?thesis using inv by simp
next
  case True
  let ?n = "stationsCount r"
  let ?m = "tail_scan r ?n"
  let ?r = "r\<lparr>stations := delete_loop (stations r) (?m + 1) ?n, stationsCount := ?m\<rparr>"
  have eq: "tailCompactIfWaiting r = ?r"
    using True by (simp add: tailCompactIfWaiting_def Let_def)
  have m0: "0 \<le> ?m"
  proof (cases "0 \<le> ?n")
    case True then show ?thesis by (rule tail_scan_nonneg)
  next
    case False
    then have "?m = ?n" by (subst tail_scan.simps) simp
    then show ?thesis using True by simp
  qed
  have st: "stations ?r j = (if ?m + 1 \<le> j \<and> j \<le> ?n then None else stations r j)" for j
    by (simp add: delete_loop_apply)
  show ?thesis unfolding eq
  proof (rule room_invI)
    show "dom (stations ?r) = {1 .. stationsCount ?r}"
    proof (rule set_eqI)
      fix j
      have "j \<in> dom (stations r) \<longleftrightarrow> 1 \<le> j \<and> j \<le> ?n"
        using room_inv_dom[OF inv] by auto
      then have "stations r j \<noteq> None \<longleftrightarrow> 1 \<le> j \<and> j \<le> ?n" by (simp add: dom_def)
      then show "j \<in> dom (stations ?r) \<longleftrightarrow> j \<in> {1 .. stationsCount ?r}"
        using True m0 by (auto simp: delete_loop_apply dom_def)
    qed
  next
    fix c s assume b: "bindings ?r c = Some s"
    then have bs: "bindings r c = Some s" by simp
    then obtain sl where sl: "stations r s = Some sl" "ownerClientId sl = Some c"
      using room_inv_bound[OF inv] by blast
    have "c \<noteq> []" using bs ne by auto
    then have "\<not> vacant sl" using sl by (simp add: vacant_def truthy_str_def)
    moreover have "s \<le> ?n" using room_inv_range[OF inv sl(1)] by simp
    ultimately have "\<not> ?m < s" using tail_scan_vacant[of r ?n s sl] sl by blast
    then show "\<exists>sl. stations ?r s = Some sl \<and> ownerClientId sl = Some c"
      using sl by (simp add: delete_loop_apply)
  next
    fix c s sl assume a: "stations ?r s = Some sl" "ownerClientId sl = Some c"
    then have "stations r s = Some sl" by (simp add: delete_loop_apply split: if_splits)
    then show "bindings ?r c = Some s" using room_inv_owner[OF inv _ a(2)] by simp
  qed
qed


lemma room_inv_maybeApply:
  "room_inv r \<Longrightarrow> bindings r [] = None \<Longrightarrow> room_inv (maybeApplyPendingCompaction r)"
proof -
  assume a: "room_inv r" "bindings r [] = None"
  have "room_inv ((tailCompactIfWaiting r)\<lparr>pendingCompaction := False\<rparr>) =
        room_inv (tailCompactIfWaiting r)"
    by (rule room_inv_cong) simp_all
  then show ?thesis
    using a room_inv_tailCompact[OF a] by (simp add: maybeApplyPendingCompaction_def)
qed

lemma room_inv_resetToWaiting:
  assumes inv: "room_inv r" and ne: "bindings r [] = None"
  shows "room_inv (resetToWaiting r)"
proof -
  let ?c = "r\<lparr>stations := (\<lambda>i. map_option (\<lambda>s. s\<lparr>ready := False\<rparr>) (stations r i)),
              state := WAITING, startedAt := None, timeLeft := None,
              warned30 := False, warned60 := False\<rparr>"
  have "room_inv ?c"
  proof (rule room_invI)
    show "dom (stations ?c) = {1 .. stationsCount ?c}"
      using room_inv_dom[OF inv] by (auto simp: dom_def)
  next
    fix c s assume "bindings ?c c = Some s"
    then show "\<exists>sl. stations ?c s = Some sl \<and> ownerClientId sl = Some c"
      using room_inv_bound[OF inv, of c s] by auto
  next
    fix c s sl assume "stations ?c s = Some sl" "ownerClientId sl = Some c"
    then show "bindings ?c c = Some s"
      using room_inv_owner[OF inv, of s _ c] by auto
  qed
  moreover have "bindings ?c [] = None" using ne by simp
  ultimately show ?thesis
    unfolding resetToWaiting_def by (rule room_inv_maybeApply)
qed

lemma room_inv_updateConfig:
  assumes inv: "room_inv r" and ne: "bindings r [] = None" and cap: "stationsCount r \<le> 200"
  shows "room_inv (snd (updateConfig r n d))"
proof (cases "fst (updateConfig r n d) = None")
  case False
  then have "snd (updateConfig r n d) = r"
    by (auto simp: updateConfig_def split: if_splits)
  then show ?thesis using inv by simp
next
  case True
  then have free: "\<not> (\<exists>j. n + 1 \<le> j \<and> j \<le> stationsCount r \<and> claimed r j)"
    by (auto simp: updateConfig_def inUse_loop_iff split: if_splits)
  let ?st = "fill_loop (delete_loop (stations r) (n + 1) 200) 1 n"
  let ?r = "r\<lparr>stationsCount := n, stations := ?st, roundDurationSec := d\<rparr>"
  have eq: "snd (updateConfig r n d) = ?r"
    using True by (auto simp: updateConfig_def split: if_splits)
  have in_dom: "stations r j \<noteq> None \<longleftrightarrow> 1 \<le> j \<and> j \<le> stationsCount r" for j
    using room_inv_dom[OF inv] by (auto simp: dom_def)
  have st: "?st j =
      (if 1 \<le> j \<and> j \<le> n then (case stations r j of None \<Rightarrow> Some (fresh_slot j) | Some s \<Rightarrow> Some s)
       else None)" for j
  proof (cases "1 \<le> j \<and> j \<le> n")
    case True
    then show ?thesis by (auto simp: fill_loop_apply delete_loop_apply split: option.splits)
  next
    case False
    have "stations r j = None" if "\<not> (n + 1 \<le> j \<and> j \<le> 200)"
      using that False in_dom[of j] cap by auto
    then show ?thesis using False by (auto simp: fill_loop_apply delete_loop_apply)
  qed
  show ?thesis unfolding eq
  proof (rule room_invI)
    show "dom (stations ?r) = {1 .. stationsCount ?r}"
      by (auto simp: st dom_def split: if_splits option.splits)
  next
    fix c s assume "bindings ?r c = Some s"
    then have bs: "bindings r c = Some s" by simp
    then obtain sl where sl: "stations r s = Some sl" "ownerClientId sl = Some c"
      using room_inv_bound[OF inv] by blast
    have "c \<noteq> []" using bs ne by auto
    then have "claimed r s" using sl by (simp add: claimed_def truthy_str_def)
    moreover have "1 \<le> s \<and> s \<le> stationsCount r" using room_inv_range[OF inv sl(1)] .
    ultimately have "s \<le> n" using free by force
    then show "\<exists>sl. stations ?r s = Some sl \<and> ownerClientId sl = Some c"
      using sl \<open>1 \<le> s \<and> s \<le> stationsCount r\<close> by (simp add: st)
  next
    fix c s sl assume a: "stations ?r s = Some sl" "ownerClientId sl = Some c"
    then have "stations r s = Some sl"
      by (auto simp: st fresh_slot_def split: if_splits option.splits)
    then show "bindings ?r c = Some s" using room_inv_owner[OF inv _ a(2)] by simp
  qed
qed

lemma room_inv_station_leave:
  assumes inv: "room_inv r" and ne: "bindings r [] = None"
  shows "room_inv (snd (station_leave r cid))"
proof (cases "truthy_num (bindings r cid)")
  case False
  then show ?thesis using inv by (simp add: station_leave_def)
next
  case True
  then obtain sid where sid: "bindings r cid = Some sid"
    by (auto simp: truthy_num_def split: option.splits)
  then obtain slot where slot: "stations r sid = Some slot" "ownerClientId slot = Some cid"
    using room_inv_bound[OF inv] by blast
  let ?r1 = "r\<lparr>stations := (stations r)(sid \<mapsto> release slot), bindings := (bindings r)(cid := None)\<rparr>"
  have r1: "room_inv ?r1"
  proof (rule room_invI)
    show "dom (stations ?r1) = {1 .. stationsCount ?r1}"
      using room_inv_dom[OF inv] slot by auto
  next
    fix c s assume b: "bindings ?r1 c = Some s"
    then have c: "c \<noteq> cid" "bindings r c = Some s" by (auto split: if_splits)
    then obtain sl where sl: "stations r s = Some sl" "ownerClientId sl = Some c"
      using room_inv_bound[OF inv] by blast
    then have "s \<noteq> sid" using slot c by auto
    then show "\<exists>sl. stations ?r1 s = Some sl \<and> ownerClientId sl = Some c" using sl by simp
  next
    fix c s sl assume a: "stations ?r1 s = Some sl" "ownerClientId sl = Some c"
    then have ns: "s \<noteq> sid" by (auto simp: release_def)
    then have "stations r s = Some sl" using a by simp
    then have bs: "bindings r c = Some s" using room_inv_owner[OF inv _ a(2)] by simp
    then have "c \<noteq> cid" using sid ns by auto
    then show "bindings ?r1 c = Some s" using bs by simp
  qed
  have ne1: "bindings ?r1 [] = None" using ne by simp
  have "snd (station_leave r cid) =
      (if state r = RUNNING then ?r1\<lparr>pendingCompaction := True\<rparr> else tailCompactIfWaiting ?r1)"
    using True sid slot by (simp add: station_leave_def Let_def)
  moreover have "room_inv (?r1\<lparr>pendingCompaction := True\<rparr>) = room_inv ?r1"
    by (rule room_inv_cong) simp_all
  ultimately show ?thesis
    using r1 room_inv_tailCompact[OF r1 ne1] by simp
qed

text \<open>The invariant is kept by every operation of the store but renumber compaction, and by
  the \<open>station:leave\<close> handler: by \<open>claimStation\<close>, \<open>setReady\<close>, \<open>startRound\<close>,
  \<open>stopRound\<close>, \<open>resumeRound\<close>, \<open>tick\<close>, \<open>resetToWaiting\<close>, tail compaction and, for
  a room of at most 200 stations, \<open>updateConfig\<close>; no client has the empty id.\<close>

lemma room_inv_kept:
  assumes "room_inv r" and "bindings r [] = None"
  shows "cid \<noteq> [] \<Longrightarrow> room_inv (snd (claimStation r cid sid))"
    and "room_inv (snd (setReady r cid rdy))"
    and "room_inv (snd (startRound now r))"
    and "room_inv (snd (stopRound now r))"
    and "room_inv (snd (resumeRound now r))"
    and "room_inv (fst (tick now r))"
    and "room_inv (resetToWaiting r)"
    and "stationsCount r \<le> 200 \<Longrightarrow> room_inv (snd (updateConfig r n d))"
    and "room_inv (tailCompactIfWaiting r)"
    and "room_inv (snd (station_leave r cid))"
  using assms
  by (simp_all add: room_inv_claimStation room_inv_setReady room_inv_startRound
      room_inv_stopRound room_inv_resumeRound room_inv_tick room_inv_resetToWaiting
      room_inv_updateConfig room_inv_tailCompact room_inv_station_leave)

end
